theory Spec2Isabelle
  imports Complex_Main "HOL-Library.Word" "HOL-Library.Signed_Division"
begin

section \<open>Data model of the mask processor\<close>

text \<open>
  The native mask processor exists in two variants: \<^verbatim>\<open>src/native/mask_processor.c\<close>
  and \<^verbatim>\<open>ios/Classes/mask_processor.c\<close>.  Compositing and smoothing are the same
  text in both (the iOS file only allocates through \<^verbatim>\<open>aligned_malloc\<close>); mask
  expansion differs and is embedded twice.

  Conventions of the embedding:
  \<^item> a C \<^verbatim>\<open>double\<close> is a \<open>real\<close>; a buffer of doubles holds reals, and the model agrees
    with the code on those that are doubles.  Comparisons against the thresholds are made
    over the reals (the doubles \<^verbatim>\<open>0.5 - 0.05\<close> and \<^verbatim>\<open>0.5 + 0.05\<close> are the doubles
    nearest to 0.45 and 0.55, so a double is below the one or above the other exactly when
    it is below 0.45 or above 0.55, except the double nearest to 0.55 itself, which the
    code sends to the transition band, where it gets the same alpha 255).  The transition
    alpha is computed with rounded double operations (section on double arithmetic); the
    sums and quotients of the smoother are exact, without rounding error;
  \<^item> a C \<^verbatim>\<open>int\<close> is an \<open>int\<close>.  The squares that \<^verbatim>\<open>expand_mask_native\<close> computes from
    \<open>border_width\<close> leave the range of a 32-bit \<^verbatim>\<open>int\<close> on any grid once
    \<open>border_width\<close> is large, and are wrapped (\<open>int_wrap\<close>); index arithmetic is not
    wrapped, it stays in range for every grid of fewer than \<open>2^29\<close> cells;
  \<^item> a pointer to a buffer is a \<open>list option\<close>, \<open>None\<close> being \<^verbatim>\<open>NULL\<close>;
  \<^item> every function returns an \<open>option\<close>: \<open>None\<close> stands for an access outside a
    buffer (undefined behaviour in C), \<open>Some (code, buffer)\<close> for a normal return
    with the status code and the final contents of the buffer the function writes.
\<close>

type_synonym byte = "8 word"

datatype MaskProcessorResult =
    MASK_PROCESSOR_SUCCESS
  | MASK_PROCESSOR_ERROR_INVALID_PARAMS
  | MASK_PROCESSOR_ERROR_MEMORY
  | MASK_PROCESSOR_ERROR_PROCESSING

record RGBColor =
  r :: byte
  g :: byte
  b :: byte

definition THRESHOLD :: real where
  "THRESHOLD = 0.5"

definition THRESHOLD_HIGH :: real where
  "THRESHOLD_HIGH = THRESHOLD + 0.05"

definition THRESHOLD_LOW :: real where
  "THRESHOLD_LOW = THRESHOLD - 0.05"

definition THRESHOLD_RANGE :: real where
  "THRESHOLD_RANGE = 0.1"

definition clamp_int :: "int \<Rightarrow> int \<Rightarrow> int \<Rightarrow> int" where
  "clamp_int v lo hi = (if v < lo then lo else if v > hi then hi else v)"

text \<open>
  The value a 32-bit \<^verbatim>\<open>int\<close> holds after an operation whose exact result is \<open>v\<close>:
  two's complement wrap-around, which is what the compiled code does where C leaves
  signed overflow undefined.
\<close>

definition int_wrap :: "int \<Rightarrow> int" where
  "int_wrap v = (v + 2147483648) mod 4294967296 - 2147483648"

text \<open>C's \<^verbatim>\<open>round\<close>: to the nearest integer, halfway cases away from zero.\<close>

definition c_round :: "real \<Rightarrow> int" where
  "c_round v = (if 0 \<le> v then \<lfloor>v + 1 / 2\<rfloor> else \<lceil>v - 1 / 2\<rceil>)"

subsection \<open>Double arithmetic\<close>

text \<open>
  The alpha of the transition band depends on how the \<^verbatim>\<open>double\<close> operations round (at
  mask value 0.5 the code computes 127.49999999999997 and writes 127), so that expression
  is evaluated as the code evaluates it: every constant and every operation is rounded
  to the nearest number with a 53-bit significand, ties to even.  The exponent range is
  not bounded (no overflow, no underflow), and there is no infinity and no NaN.

  \<open>rne\<close> rounds to the nearest integer, ties to even; \<open>binade v\<close> is the exponent \<open>e\<close>
  with \<open>2^e \<le> v < 2^(e + 1)\<close> for positive \<open>v\<close>.
\<close>

definition rne :: "real \<Rightarrow> int" where
  "rne v = (let f = \<lfloor>v\<rfloor> in
            if v - of_int f < 1 / 2 then f
            else if v - of_int f > 1 / 2 then f + 1
            else if even f then f else f + 1)"

function binade :: "real \<Rightarrow> int" where
  "binade v = (if v \<le> 0 then 0
               else if 2 \<le> v then binade (v / 2) + 1
               else if v < 1 then binade (v * 2) - 1
               else 0)"
  by pat_completeness auto
termination
proof (relation "measure (\<lambda>v. nat \<bar>\<lfloor>log 2 v\<rfloor>\<bar>)")
  show "wf (measure (\<lambda>v. nat \<bar>\<lfloor>log 2 v\<rfloor>\<bar>))" by simp
next
  fix v :: real assume v: "\<not> v \<le> 0" "2 \<le> v"
  have "log 2 (v / 2) = log 2 v - 1" using v by (simp add: log_divide)
  moreover have "1 \<le> log 2 v" using v by (simp add: le_log_iff)
  ultimately show "(v / 2, v) \<in> measure (\<lambda>v. nat \<bar>\<lfloor>log 2 v\<rfloor>\<bar>)"
    by (simp add: le_floor_iff)
next
  fix v :: real assume v: "\<not> v \<le> 0" "\<not> 2 \<le> v" "v < 1"
  have "log 2 (v * 2) = log 2 v + 1" using v by (simp add: log_mult)
  then have fl: "\<lfloor>log 2 (v * 2)\<rfloor> = \<lfloor>log 2 v\<rfloor> + 1" by simp
  have "log 2 v < 0" using v by simp
  then have "\<lfloor>log 2 v\<rfloor> < 0" by (simp add: floor_less_iff)
  then have "nat \<bar>\<lfloor>log 2 v\<rfloor> + 1\<bar> < nat \<bar>\<lfloor>log 2 v\<rfloor>\<bar>" by arith
  then show "(v * 2, v) \<in> measure (\<lambda>v. nat \<bar>\<lfloor>log 2 v\<rfloor>\<bar>)"
    by (simp only: in_measure fl)
qed

declare binade.simps [simp del]

definition to_double :: "real \<Rightarrow> real" where
  "to_double v =
     (if v = 0 then 0
      else (let u = 2 powi (binade \<bar>v\<bar> - 52)
            in sgn v * (of_int (rne (\<bar>v\<bar> / u)) * u)))"


definition double_sub :: "real \<Rightarrow> real \<Rightarrow> real" where
  "double_sub a c = to_double (a - c)"

definition double_div :: "real \<Rightarrow> real \<Rightarrow> real" where
  "double_div a c = to_double (a / c)"

definition double_mul :: "real \<Rightarrow> real \<Rightarrow> real" where
  "double_mul a c = to_double (a * c)"

text \<open>
  \<^verbatim>\<open>(mask_value - THRESHOLD_LOW) / THRESHOLD_RANGE * 255.0\<close>, where the macro
  \<^verbatim>\<open>THRESHOLD_LOW\<close> is \<^verbatim>\<open>(0.5 - 0.05)\<close> and \<^verbatim>\<open>THRESHOLD_RANGE\<close> is \<^verbatim>\<open>0.1\<close>.
\<close>

definition transition_value :: "real \<Rightarrow> real" where
  "transition_value mask_value =
     double_mul
       (double_div
          (double_sub mask_value (double_sub (to_double THRESHOLD) (to_double 0.05)))
          (to_double THRESHOLD_RANGE))
       (to_double 255.0)"

subsection \<open>Checked buffer accesses and counted loops\<close>

definition rd :: "'a list \<Rightarrow> int \<Rightarrow> 'a option" where
  "rd buf i = (if 0 \<le> i \<and> i < int (length buf) then Some (buf ! nat i) else None)"

definition wr :: "'a list \<Rightarrow> int \<Rightarrow> 'a \<Rightarrow> 'a list option" where
  "wr buf i v = (if 0 \<le> i \<and> i < int (length buf) then Some (buf[nat i := v]) else None)"

text \<open>\<^verbatim>\<open>for (int i = lo; i < n; i++) body\<close>, where the body may fault.\<close>

function for_range :: "int \<Rightarrow> int \<Rightarrow> (int \<Rightarrow> 's \<Rightarrow> 's option) \<Rightarrow> 's \<Rightarrow> 's option" where
  "for_range i n body s =
     (if i < n then (case body i s of None \<Rightarrow> None | Some s' \<Rightarrow> for_range (i + 1) n body s')
      else Some s)"
  by pat_completeness auto
termination
  by (relation "measure (\<lambda>(i, n, body, s). nat (n - i))") auto

declare for_range.simps [simp del]

text \<open>\<^verbatim>\<open>memcpy(dst, src, sizeof(double) * n)\<close> and \<^verbatim>\<open>memset(dst, 0, sizeof(double) * n)\<close>.\<close>

definition memcpy_doubles :: "real list \<Rightarrow> real list \<Rightarrow> int \<Rightarrow> real list option" where
  "memcpy_doubles dst src n =
     (if n \<le> int (length dst) \<and> n \<le> int (length src)
      then Some (take (nat n) src @ drop (nat n) dst) else None)"

definition memset_zero :: "real list \<Rightarrow> int \<Rightarrow> real list option" where
  "memset_zero dst n =
     (if n \<le> int (length dst) then Some (replicate (nat n) 0 @ drop (nat n) dst) else None)"

section \<open>Compositing: \<^verbatim>\<open>apply_sticker_mask_native\<close>\<close>

text \<open>The body of the pixel loop, for pixel \<open>i\<close>.\<close>

definition composite_pixel ::
  "real list \<Rightarrow> real list option \<Rightarrow> int \<Rightarrow> RGBColor \<Rightarrow> int \<Rightarrow> byte list \<Rightarrow> byte list option" where
  "composite_pixel msk expanded_mask add_border border_color i pixels =
     (let pixel_index = i * 4 in
      case rd msk i of None \<Rightarrow> None | Some mask_value \<Rightarrow>
      case (case expanded_mask of None \<Rightarrow> Some mask_value | Some em \<Rightarrow> rd em i) of
        None \<Rightarrow> None
      | Some expanded_mask_value \<Rightarrow>
          if mask_value > THRESHOLD_HIGH then wr pixels (pixel_index + 3) 255
          else if mask_value < THRESHOLD_LOW then
            (if add_border \<noteq> 0 \<and> expanded_mask_value > THRESHOLD then
               (case wr pixels pixel_index (r border_color) of None \<Rightarrow> None | Some p1 \<Rightarrow>
                case wr p1 (pixel_index + 1) (g border_color) of None \<Rightarrow> None | Some p2 \<Rightarrow>
                case wr p2 (pixel_index + 2) (b border_color) of None \<Rightarrow> None | Some p3 \<Rightarrow>
                wr p3 (pixel_index + 3) 255)
             else wr pixels (pixel_index + 3) 0)
          else
            (let alpha = clamp_int (c_round (transition_value mask_value)) 0 255
             in wr pixels (pixel_index + 3) (word_of_int alpha)))"

text \<open>
  The buffer after the writes of iteration \<open>i\<close> of the pixel loop, every access being in
  range: the contents \<open>composite_pixel\<close> returns then (lemma \<open>composite_pixel_eq\<close>).
\<close>

definition written_pixel ::
  "real list \<Rightarrow> real list option \<Rightarrow> int \<Rightarrow> RGBColor \<Rightarrow> int \<Rightarrow> byte list \<Rightarrow> byte list" where
  "written_pixel mk ex ab bc i px =
     (let m = mk ! nat i; e = (case ex of None \<Rightarrow> m | Some em \<Rightarrow> em ! nat i) in
      if m > THRESHOLD_HIGH then px[nat (i * 4 + 3) := 255]
      else if m < THRESHOLD_LOW then
        (if ab \<noteq> 0 \<and> e > THRESHOLD
         then px[nat (i * 4) := r bc, nat (i * 4 + 1) := g bc, nat (i * 4 + 2) := b bc,
                 nat (i * 4 + 3) := 255]
         else px[nat (i * 4 + 3) := 0])
      else px[nat (i * 4 + 3) :=
                word_of_int (clamp_int (c_round (transition_value m)) 0 255)])"

definition apply_sticker_mask_native ::
  "byte list option \<Rightarrow> real list option \<Rightarrow> int \<Rightarrow> int \<Rightarrow> int \<Rightarrow> RGBColor \<Rightarrow> int \<Rightarrow>
   real list option \<Rightarrow> (MaskProcessorResult \<times> byte list option) option" where
  "apply_sticker_mask_native pixels msk width height add_border border_color border_width
     expanded_mask =
     (case (pixels, msk) of
        (Some px, Some mk) \<Rightarrow>
          if width \<le> 0 \<or> height \<le> 0 then Some (MASK_PROCESSOR_ERROR_INVALID_PARAMS, pixels)
          else
            (let total_pixels = width * height in
             case for_range 0 total_pixels
                    (composite_pixel mk expanded_mask add_border border_color) px of
               None \<Rightarrow> None
             | Some px' \<Rightarrow> Some (MASK_PROCESSOR_SUCCESS, Some px'))
      | _ \<Rightarrow> Some (MASK_PROCESSOR_ERROR_INVALID_PARAMS, pixels))"

text \<open>The cell \<open>(x, y)\<close> of a row-major grid of the given width.\<close>

definition cell_at :: "'a list \<Rightarrow> int \<Rightarrow> int \<Rightarrow> int \<Rightarrow> 'a" where
  "cell_at buf width x y = buf ! nat (y * width + x)"

section \<open>Smoothing: \<^verbatim>\<open>smooth_mask_native\<close>\<close>

text \<open>
  One step of the window loop of the horizontal pass,
  \<^verbatim>\<open>for (int kx = -half_kernel; kx <= half_kernel; kx++)\<close>: the accumulator is the
  pair \<open>(sum, count)\<close>.
\<close>

definition horizontal_tap ::
  "real list \<Rightarrow> int \<Rightarrow> int \<Rightarrow> int \<Rightarrow> int \<Rightarrow> real \<times> int \<Rightarrow> (real \<times> int) option" where
  "horizontal_tap msk width y x kx acc =
     (let nx = x + kx in
      if nx \<ge> 0 \<and> nx < width then
        (case rd msk (y * width + nx) of
           None \<Rightarrow> None
         | Some v \<Rightarrow> Some (fst acc + v, snd acc + 1))
      else Some acc)"

definition horizontal_cell ::
  "real list \<Rightarrow> int \<Rightarrow> int \<Rightarrow> int \<Rightarrow> int \<Rightarrow> real list \<Rightarrow> real list option" where
  "horizontal_cell msk width half_kernel y x temp =
     (case for_range (- half_kernel) (half_kernel + 1) (horizontal_tap msk width y x) (0, 0) of
        None \<Rightarrow> None
      | Some (sum_v, count) \<Rightarrow> wr temp (y * width + x) (sum_v / of_int count))"

definition vertical_tap ::
  "real list \<Rightarrow> int \<Rightarrow> int \<Rightarrow> int \<Rightarrow> int \<Rightarrow> int \<Rightarrow> real \<times> int \<Rightarrow> (real \<times> int) option" where
  "vertical_tap temp width height y x ky acc =
     (let ny = y + ky in
      if ny \<ge> 0 \<and> ny < height then
        (case rd temp (ny * width + x) of
           None \<Rightarrow> None
         | Some v \<Rightarrow> Some (fst acc + v, snd acc + 1))
      else Some acc)"

definition vertical_cell ::
  "real list \<Rightarrow> int \<Rightarrow> int \<Rightarrow> int \<Rightarrow> int \<Rightarrow> int \<Rightarrow> real list \<Rightarrow> real list option" where
  "vertical_cell temp width height half_kernel y x output =
     (case for_range (- half_kernel) (half_kernel + 1) (vertical_tap temp width height y x) (0, 0) of
        None \<Rightarrow> None
      | Some (sum_v, count) \<Rightarrow> wr output (y * width + x) (sum_v / of_int count))"

text \<open>
  The parameter \<open>scratch\<close> is the answer of \<^verbatim>\<open>malloc\<close> (\<^verbatim>\<open>aligned_malloc\<close> in the iOS
  file) for \<^verbatim>\<open>sizeof(double) * width * height\<close> bytes: \<open>None\<close> for \<^verbatim>\<open>NULL\<close>, \<open>Some t\<close>
  for a fresh block with the unspecified contents \<open>t\<close>.  The buffers \<open>msk\<close> and \<open>output\<close>
  are taken to be distinct.
\<close>

definition smooth_mask_native ::
  "real list option \<Rightarrow> real list option \<Rightarrow> int \<Rightarrow> int \<Rightarrow> int \<Rightarrow> real list option \<Rightarrow>
   (MaskProcessorResult \<times> real list option) option" where
  "smooth_mask_native msk output width height kernel_size scratch =
     (case (msk, output) of
        (Some mk, Some out) \<Rightarrow>
          if width \<le> 0 \<or> height \<le> 0 \<or> kernel_size \<le> 0
          then Some (MASK_PROCESSOR_ERROR_INVALID_PARAMS, output)
          else if kernel_size \<le> 1 then
            (case memcpy_doubles out mk (width * height) of
               None \<Rightarrow> None
             | Some out' \<Rightarrow> Some (MASK_PROCESSOR_SUCCESS, Some out'))
          else
            (case scratch of
               None \<Rightarrow> Some (MASK_PROCESSOR_ERROR_MEMORY, output)
             | Some temp \<Rightarrow>
                 (let half_kernel = kernel_size sdiv 2 in
                  case for_range 0 height
                         (\<lambda>y. for_range 0 width (horizontal_cell mk width half_kernel y)) temp of
                    None \<Rightarrow> None
                  | Some temp' \<Rightarrow>
                      (case for_range 0 height
                              (\<lambda>y. for_range 0 width
                                     (vertical_cell temp' width height half_kernel y)) out of
                         None \<Rightarrow> None
                       | Some out' \<Rightarrow> Some (MASK_PROCESSOR_SUCCESS, Some out'))))
      | _ \<Rightarrow> Some (MASK_PROCESSOR_ERROR_INVALID_PARAMS, output))"



section \<open>Expansion, variant \<^verbatim>\<open>src/native/mask_processor.c\<close>: \<^verbatim>\<open>expand_mask_native\<close>\<close>

text \<open>The body of the two inner loops: cell \<open>(nx, ny)\<close> seen from the foreground cell \<open>(x, y)\<close>.\<close>

definition stamp_cell ::
  "int \<Rightarrow> int \<Rightarrow> int \<Rightarrow> int \<Rightarrow> int \<Rightarrow> int \<Rightarrow> real list \<Rightarrow> real list option" where
  "stamp_cell width border_width_sq x y ny nx output =
     (let dx = nx - x; dy = ny - y;
          distance_sq = int_wrap (int_wrap (dx * dx) + int_wrap (dy * dy)) in
      if distance_sq \<le> border_width_sq then wr output (ny * width + nx) 1.0 else Some output)"

definition expand_cell ::
  "real list \<Rightarrow> int \<Rightarrow> int \<Rightarrow> int \<Rightarrow> int \<Rightarrow> int \<Rightarrow> int \<Rightarrow> real list \<Rightarrow> real list option" where
  "expand_cell msk width height border_width border_width_sq y x output =
     (case rd msk (y * width + x) of
        None \<Rightarrow> None
      | Some v \<Rightarrow>
          if v > THRESHOLD then
            (let start_y = clamp_int (y - border_width) 0 (height - 1);
                 end_y = clamp_int (y + border_width) 0 (height - 1);
                 start_x = clamp_int (x - border_width) 0 (width - 1);
                 end_x = clamp_int (x + border_width) 0 (width - 1)
             in for_range start_y (end_y + 1)
                  (\<lambda>ny. for_range start_x (end_x + 1) (stamp_cell width border_width_sq x y ny))
                  output)
          else Some output)"

definition expand_mask_native ::
  "real list option \<Rightarrow> real list option \<Rightarrow> int \<Rightarrow> int \<Rightarrow> int \<Rightarrow>
   (MaskProcessorResult \<times> real list option) option" where
  "expand_mask_native msk output width height border_width =
     (case (msk, output) of
        (Some mk, Some out) \<Rightarrow>
          if width \<le> 0 \<or> height \<le> 0 \<or> border_width < 0
          then Some (MASK_PROCESSOR_ERROR_INVALID_PARAMS, output)
          else
            (case memset_zero out (width * height) of
               None \<Rightarrow> None
             | Some zeroed \<Rightarrow>
                 (let border_width_sq = int_wrap (border_width * border_width) in
                  case for_range 0 height
                         (\<lambda>y. for_range 0 width
                                (expand_cell mk width height border_width border_width_sq y))
                         zeroed of
                    None \<Rightarrow> None
                  | Some out' \<Rightarrow> Some (MASK_PROCESSOR_SUCCESS, Some out')))
      | _ \<Rightarrow> Some (MASK_PROCESSOR_ERROR_INVALID_PARAMS, output))"

text \<open>
  The disk of the specification: cell \<open>(cx, cy)\<close> lies within Euclidean distance
  \<open>border_width\<close> of cell \<open>(fx, fy)\<close>.
\<close>

definition within_disk :: "int \<Rightarrow> int \<Rightarrow> int \<Rightarrow> int \<Rightarrow> int \<Rightarrow> bool" where
  "within_disk border_width fx fy cx cy \<longleftrightarrow>
     (cx - fx) * (cx - fx) + (cy - fy) * (cy - fy) \<le> border_width * border_width"

section \<open>Expansion, variant \<^verbatim>\<open>ios/Classes/mask_processor.c\<close>: \<^verbatim>\<open>expand_mask_native\<close>\<close>

text \<open>
  The iOS file defines \<^verbatim>\<open>expand_mask_native\<close> differently; its embedding is named
  \<open>expand_mask_native_ios\<close>.  The local array \<^verbatim>\<open>int kernel_offsets[64]\<close> is a list
  of 64 cells (unspecified in C, zero here: only the cells below \<open>kernel_count\<close> are
  read); the state of the loop that fills it is the pair \<open>(kernel_offsets, kernel_count)\<close>.
  The squares of this loop are formed only when \<open>border_width \<le> 3\<close>, at most
  \<open>9 + 9\<close>, and need no wrapping.
\<close>

definition kernel_offset_step ::
  "int \<Rightarrow> int \<Rightarrow> int \<Rightarrow> int \<Rightarrow> int list \<times> int \<Rightarrow> (int list \<times> int) option" where
  "kernel_offset_step width border_width dy dx st =
     (if dx * dx + dy * dy \<le> border_width * border_width then
        (case wr (fst st) (snd st) (dy * width + dx) of
           None \<Rightarrow> None
         | Some kernel_offsets \<Rightarrow> Some (kernel_offsets, snd st + 1))
      else Some st)"

definition build_kernel :: "int \<Rightarrow> int \<Rightarrow> (int list \<times> int) option" where
  "build_kernel width border_width =
     for_range (- border_width) (border_width + 1)
       (\<lambda>dy. for_range (- border_width) (border_width + 1)
                (kernel_offset_step width border_width dy))
       (replicate 64 0, 0)"

text \<open>C's \<^verbatim>\<open>/\<close> and \<^verbatim>\<open>%\<close> on \<^verbatim>\<open>int\<close> truncate towards zero: \<open>sdiv\<close> and \<open>smod\<close>.\<close>

definition kernel_target ::
  "int list \<Rightarrow> int \<Rightarrow> int \<Rightarrow> int \<Rightarrow> int \<Rightarrow> real list \<Rightarrow> real list option" where
  "kernel_target kernel_offsets width height center_idx k output =
     (case rd kernel_offsets k of
        None \<Rightarrow> None
      | Some off \<Rightarrow>
          (let target_idx = center_idx + off;
               target_y = target_idx sdiv width;
               target_x = target_idx smod width
           in if target_y \<ge> 0 \<and> target_y < height \<and> target_x \<ge> 0 \<and> target_x < width
              then wr output target_idx 1.0 else Some output))"

definition kernel_cell ::
  "real list \<Rightarrow> int list \<Rightarrow> int \<Rightarrow> int \<Rightarrow> int \<Rightarrow> int \<Rightarrow> int \<Rightarrow> real list \<Rightarrow> real list option" where
  "kernel_cell msk kernel_offsets kernel_count width height y x output =
     (case rd msk (y * width + x) of
        None \<Rightarrow> None
      | Some v \<Rightarrow>
          if v > THRESHOLD then
            (let center_idx = y * width + x
             in for_range 0 kernel_count (kernel_target kernel_offsets width height center_idx)
                  output)
          else Some output)"

definition mark_foreground :: "real list \<Rightarrow> int \<Rightarrow> real list \<Rightarrow> real list option" where
  "mark_foreground msk i output =
     (case rd msk i of
        None \<Rightarrow> None
      | Some v \<Rightarrow> if v > THRESHOLD then wr output i 1.0 else Some output)"

text \<open>
  The tests of the dilation sweep.  \<open>positive buf i\<close> is \<^verbatim>\<open>buf[i] > 0.0\<close>; \<open>or_else\<close> and
  \<open>and_then\<close> are C's \<^verbatim>\<open>||\<close> and \<^verbatim>\<open>&&\<close>, which do not evaluate (and so do not read
  through) their right operand once the left one decides; \<open>grow_if c idx output\<close> is
  \<^verbatim>\<open>if (c) output[idx] = 1.0;\<close>.
\<close>

definition positive :: "real list \<Rightarrow> int \<Rightarrow> bool option" where
  "positive buf i = (case rd buf i of None \<Rightarrow> None | Some v \<Rightarrow> Some (v > 0.0))"

definition or_else :: "bool option \<Rightarrow> bool option \<Rightarrow> bool option" where
  "or_else p q = (case p of None \<Rightarrow> None | Some True \<Rightarrow> Some True | Some False \<Rightarrow> q)"

definition and_then :: "bool option \<Rightarrow> bool option \<Rightarrow> bool option" where
  "and_then p q = (case p of None \<Rightarrow> None | Some False \<Rightarrow> Some False | Some True \<Rightarrow> q)"

definition grow_if :: "bool option \<Rightarrow> int \<Rightarrow> real list \<Rightarrow> real list option" where
  "grow_if c idx output =
     (case c of None \<Rightarrow> None | Some True \<Rightarrow> wr output idx 1.0 | Some False \<Rightarrow> Some output)"

definition dilate_interior ::
  "real list \<Rightarrow> int \<Rightarrow> int \<Rightarrow> int \<Rightarrow> real list \<Rightarrow> real list option" where
  "dilate_interior temp_buffer width y x output =
     (let idx = y * width + x in
      case rd temp_buffer idx of
        None \<Rightarrow> None
      | Some c \<Rightarrow>
          if c = 0.0 then
            grow_if
              (or_else (positive temp_buffer (idx - width - 1))
              (or_else (positive temp_buffer (idx - width))
              (or_else (positive temp_buffer (idx - width + 1))
              (or_else (positive temp_buffer (idx - 1))
              (or_else (positive temp_buffer (idx + 1))
              (or_else (positive temp_buffer (idx + width - 1))
              (or_else (positive temp_buffer (idx + width))
                       (positive temp_buffer (idx + width + 1)))))))))
              idx output
          else Some output)"

definition dilate_rows ::
  "real list \<Rightarrow> int \<Rightarrow> int \<Rightarrow> int \<Rightarrow> real list \<Rightarrow> real list option" where
  "dilate_rows temp_buffer width height x output =
     (case rd temp_buffer x of
        None \<Rightarrow> None
      | Some c \<Rightarrow>
          (case (if c = 0.0 then
                   grow_if
                     (or_else (and_then (Some (x > 0)) (positive temp_buffer (x - 1)))
                     (or_else (and_then (Some (x < width - 1)) (positive temp_buffer (x + 1)))
                     (or_else (positive temp_buffer (width + x))
                     (or_else (and_then (Some (x > 0)) (positive temp_buffer (width + x - 1)))
                              (and_then (Some (x < width - 1))
                                 (positive temp_buffer (width + x + 1)))))))
                     x output
                 else Some output) of
             None \<Rightarrow> None
           | Some output1 \<Rightarrow>
               (let bottom_idx = (height - 1) * width + x in
                case rd temp_buffer bottom_idx of
                  None \<Rightarrow> None
                | Some c2 \<Rightarrow>
                    if c2 = 0.0 then
                      grow_if
                        (or_else (and_then (Some (x > 0)) (positive temp_buffer (bottom_idx - 1)))
                        (or_else (and_then (Some (x < width - 1))
                                    (positive temp_buffer (bottom_idx + 1)))
                        (or_else (positive temp_buffer (bottom_idx - width))
                        (or_else (and_then (Some (x > 0))
                                    (positive temp_buffer (bottom_idx - width - 1)))
                                 (and_then (Some (x < width - 1))
                                    (positive temp_buffer (bottom_idx - width + 1)))))))
                        bottom_idx output1
                    else Some output1)))"

definition dilate_columns ::
  "real list \<Rightarrow> int \<Rightarrow> int \<Rightarrow> real list \<Rightarrow> real list option" where
  "dilate_columns temp_buffer width y output =
     (let left_idx = y * width in
      case rd temp_buffer left_idx of
        None \<Rightarrow> None
      | Some c \<Rightarrow>
          (case (if c = 0.0 then
                   grow_if
                     (or_else (positive temp_buffer (left_idx - width))
                     (or_else (positive temp_buffer (left_idx - width + 1))
                     (or_else (positive temp_buffer (left_idx + 1))
                     (or_else (positive temp_buffer (left_idx + width))
                              (positive temp_buffer (left_idx + width + 1))))))
                     left_idx output
                 else Some output) of
             None \<Rightarrow> None
           | Some output1 \<Rightarrow>
               (let right_idx = y * width + width - 1 in
                case rd temp_buffer right_idx of
                  None \<Rightarrow> None
                | Some c2 \<Rightarrow>
                    if c2 = 0.0 then
                      grow_if
                        (or_else (positive temp_buffer (right_idx - width - 1))
                        (or_else (positive temp_buffer (right_idx - width))
                        (or_else (positive temp_buffer (right_idx - 1))
                        (or_else (positive temp_buffer (right_idx + width - 1))
                                 (positive temp_buffer (right_idx + width))))))
                        right_idx output1
                    else Some output1)))"

text \<open>One round of the loop over \<open>iter\<close>; the state is the pair \<open>(temp_buffer, output)\<close>.\<close>

definition dilate_iter ::
  "int \<Rightarrow> int \<Rightarrow> int \<Rightarrow> real list \<times> real list \<Rightarrow> (real list \<times> real list) option" where
  "dilate_iter width height iter st =
     (case memcpy_doubles (fst st) (snd st) (width * height) of
        None \<Rightarrow> None
      | Some temp_buffer \<Rightarrow>
          (case for_range 1 (height - 1)
                  (\<lambda>y. for_range 1 (width - 1) (dilate_interior temp_buffer width y)) (snd st) of
             None \<Rightarrow> None
           | Some output1 \<Rightarrow>
               (case for_range 0 width (dilate_rows temp_buffer width height) output1 of
                  None \<Rightarrow> None
                | Some output2 \<Rightarrow>
                    (case for_range 1 (height - 1) (dilate_columns temp_buffer width) output2 of
                       None \<Rightarrow> None
                     | Some output3 \<Rightarrow> Some (temp_buffer, output3)))))"

text \<open>
  As for the smoother, \<open>scratch\<close> is the answer of \<^verbatim>\<open>aligned_malloc\<close>; it is consulted
  only on the path that allocates (\<open>border_width > 3\<close>).
\<close>

definition expand_mask_native_ios ::
  "real list option \<Rightarrow> real list option \<Rightarrow> int \<Rightarrow> int \<Rightarrow> int \<Rightarrow> real list option \<Rightarrow>
   (MaskProcessorResult \<times> real list option) option" where
  "expand_mask_native_ios msk output width height border_width scratch =
     (case (msk, output) of
        (Some mk, Some out) \<Rightarrow>
          if width \<le> 0 \<or> height \<le> 0 \<or> border_width < 0
          then Some (MASK_PROCESSOR_ERROR_INVALID_PARAMS, output)
          else if border_width = 0 then
            (case memcpy_doubles out mk (width * height) of
               None \<Rightarrow> None
             | Some out' \<Rightarrow> Some (MASK_PROCESSOR_SUCCESS, Some out'))
          else
            (case memset_zero out (width * height) of
               None \<Rightarrow> None
             | Some zeroed \<Rightarrow>
                 if border_width \<le> 3 then
                   (case build_kernel width border_width of
                      None \<Rightarrow> None
                    | Some (kernel_offsets, kernel_count) \<Rightarrow>
                        (case for_range 0 height
                                (\<lambda>y. for_range 0 width
                                       (kernel_cell mk kernel_offsets kernel_count width height y))
                                zeroed of
                           None \<Rightarrow> None
                         | Some out' \<Rightarrow> Some (MASK_PROCESSOR_SUCCESS, Some out')))
                 else
                   (case for_range 0 (width * height) (mark_foreground mk) zeroed of
                      None \<Rightarrow> None
                    | Some marked \<Rightarrow>
                        (case scratch of
                           None \<Rightarrow> Some (MASK_PROCESSOR_ERROR_MEMORY, Some marked)
                         | Some temp_buffer \<Rightarrow>
                             (case for_range 0 border_width (dilate_iter width height)
                                     (temp_buffer, marked) of
                                None \<Rightarrow> None
                              | Some st \<Rightarrow> Some (MASK_PROCESSOR_SUCCESS, Some (snd st))))))
      | _ \<Rightarrow> Some (MASK_PROCESSOR_ERROR_INVALID_PARAMS, output))"

text \<open>
  The alpha the pixel loop writes for mask value \<open>m\<close> when the pixel is not painted as
  border, as an integer; used to compare alphas.
\<close>

definition alpha_level :: "real \<Rightarrow> int" where
  "alpha_level m = (if m > 0.55 then 255 else if m < 0.45 then 0
     else clamp_int (c_round (transition_value m)) 0 255)"

section \<open>Loops and buffers\<close>


lemma for_range_rule:
  assumes "Inv lo s"
    and "\<And>i t. lo \<le> i \<Longrightarrow> i < n \<Longrightarrow> Inv i t \<Longrightarrow> \<exists>t'. body i t = Some t' \<and> Inv (i + 1) t'"
  shows "\<exists>s'. for_range lo n body s = Some s' \<and> Inv (if lo \<le> n then n else lo) s'"
  using assms
proof (induction lo n body s rule: for_range.induct)
  case (1 i n body s)
  show ?case
  proof (cases "i < n")
    case False
    then have "for_range i n body s = Some s" by (simp add: for_range.simps)
    moreover have "(if i \<le> n then n else i) = i" using False by simp
    ultimately show ?thesis using "1.prems"(1) by simp
  next
    case True
    from "1.prems"(2)[of i s] True "1.prems"(1)
    obtain t where t: "body i s = Some t" "Inv (i + 1) t" by auto
    have step: "\<And>j u. i + 1 \<le> j \<Longrightarrow> j < n \<Longrightarrow> Inv j u \<Longrightarrow> \<exists>u'. body j u = Some u' \<and> Inv (j + 1) u'"
      using "1.prems"(2) by simp
    from "1.IH"[OF True t(1) t(2) step]
    obtain s' where s': "for_range (i + 1) n body t = Some s'"
      "Inv (if i + 1 \<le> n then n else i + 1) s'" by blast
    have "for_range i n body s = Some s'"
      using True t(1) s'(1) by (subst for_range.simps) simp
    moreover have "Inv (if i \<le> n then n else i) s'" using s'(2) True by simp
    ultimately show ?thesis by blast
  qed
qed

lemma composite_pixel_eq:
  assumes "0 \<le> i" "i < int (length mk)" "\<And>em. ex = Some em \<Longrightarrow> i < int (length em)"
    "i * 4 + 3 < int (length px)"
  shows "composite_pixel mk ex ab bc i px = Some (written_pixel mk ex ab bc i px)"
  using assms
  by (cases ex) (simp_all add: composite_pixel_def written_pixel_def rd_def wr_def Let_def)

lemma nth_upd: "j < length xs \<Longrightarrow> xs[k := v] ! j = (if k = j then v else xs ! j)"
  by (cases "k = j") simp_all

lemma length_written_pixel [simp]: "length (written_pixel mk ex ab bc i px) = length px"
  by (simp add: written_pixel_def Let_def split: option.splits)

lemma written_pixel_other:
  "0 \<le> i \<Longrightarrow> j < length px \<Longrightarrow> int j div 4 \<noteq> i \<Longrightarrow> written_pixel mk ex ab bc i px ! j = px ! j"
  by (auto simp: written_pixel_def Let_def nth_upd split: option.splits)

lemma written_pixel_local:
  "0 \<le> i \<Longrightarrow> length t = length px \<Longrightarrow> j < length px \<Longrightarrow> int j div 4 = i \<Longrightarrow> t ! j = px ! j \<Longrightarrow>
   written_pixel mk ex ab bc i t ! j = written_pixel mk ex ab bc i px ! j"
  by (simp add: written_pixel_def Let_def nth_upd split: option.splits)

lemma apply_loop:
  assumes n: "n \<le> int (length mk)" "\<And>em. ex = Some em \<Longrightarrow> n \<le> int (length em)"
    "4 * n \<le> int (length px)" "0 \<le> n"
  shows "\<exists>px'. for_range 0 n (composite_pixel mk ex ab bc) px = Some px' \<and>
           length px' = length px \<and>
           (\<forall>j<length px. px' ! j =
              (if int j div 4 < n then written_pixel mk ex ab bc (int j div 4) px ! j else px ! j))"
proof -
  define Inv where "Inv = (\<lambda>i t. length t = length px \<and>
     (\<forall>j<length px. t ! j =
        (if int j div 4 < i then written_pixel mk ex ab bc (int j div 4) px ! j else px ! j)))"
  have "\<not> int j div 4 < 0" for j :: nat by simp
  then have init: "Inv 0 px" unfolding Inv_def by simp
  have step: "\<exists>t'. composite_pixel mk ex ab bc i t = Some t' \<and> Inv (i + 1) t'"
    if i: "0 \<le> i" "i < n" and inv: "Inv i t" for i t
  proof -
    have len: "length t = length px" using inv by (simp add: Inv_def)
    have eq: "composite_pixel mk ex ab bc i t = Some (written_pixel mk ex ab bc i t)"
      using i n len by (intro composite_pixel_eq) force+
    have "Inv (i + 1) (written_pixel mk ex ab bc i t)"
      unfolding Inv_def
    proof (intro conjI allI impI)
      show "length (written_pixel mk ex ab bc i t) = length px" using len by simp
    next
      fix j assume j: "j < length px"
      consider "int j div 4 < i" | "int j div 4 = i" | "i < int j div 4" by linarith
      then show "written_pixel mk ex ab bc i t ! j =
          (if int j div 4 < i + 1 then written_pixel mk ex ab bc (int j div 4) px ! j else px ! j)"
      proof cases
        case 1
        then have "written_pixel mk ex ab bc i t ! j = t ! j"
          using i j len by (intro written_pixel_other) auto
        with 1 inv j show ?thesis by (simp add: Inv_def)
      next
        case 2
        have "t ! j = px ! j" using inv j 2 by (simp add: Inv_def)
        then have "written_pixel mk ex ab bc i t ! j = written_pixel mk ex ab bc i px ! j"
          using i j len 2 by (intro written_pixel_local) auto
        with 2 show ?thesis by simp
      next
        case 3
        then have "written_pixel mk ex ab bc i t ! j = t ! j"
          using i j len by (intro written_pixel_other) auto
        with 3 inv j show ?thesis by (simp add: Inv_def)
      qed
    qed
    with eq show ?thesis by blast
  qed
  from for_range_rule[of Inv 0 px n "composite_pixel mk ex ab bc", OF init step]
  obtain s' where "for_range 0 n (composite_pixel mk ex ab bc) px = Some s'" "Inv n s'"
    using n(4) by auto
  then show ?thesis by (auto simp: Inv_def)
qed

lemma apply_result:
  assumes "0 < width" "0 < height" "length mk = nat (width * height)"
    "length px = nat (4 * (width * height))"
    "\<And>em. ex = Some em \<Longrightarrow> length em = nat (width * height)"
  shows "\<exists>px'. apply_sticker_mask_native (Some px) (Some mk) width height ab bc bw ex
             = Some (MASK_PROCESSOR_SUCCESS, Some px') \<and>
           length px' = length px \<and>
           (\<forall>j<length px. px' ! j = written_pixel mk ex ab bc (int j div 4) px ! j)"
proof -
  have pos: "0 < width * height" using assms(1,2) by simp
  from apply_loop[of "width * height" mk ex px ab bc]
  obtain px' where px': "for_range 0 (width * height) (composite_pixel mk ex ab bc) px = Some px'"
    "length px' = length px"
    "\<forall>j<length px. px' ! j =
        (if int j div 4 < width * height then written_pixel mk ex ab bc (int j div 4) px ! j
         else px ! j)"
    using assms pos by force
  have "int j div 4 < width * height" if "j < length px" for j
    using that assms(4) pos by linarith
  with px' show ?thesis
    using assms(1,2) by (simp add: apply_sticker_mask_native_def Let_def)
qed


lemma thresholds: "THRESHOLD = 0.5" "THRESHOLD_HIGH = 0.55" "THRESHOLD_LOW = 0.45" "THRESHOLD_RANGE = 0.1"
  by (simp_all add: THRESHOLD_def THRESHOLD_HIGH_def THRESHOLD_LOW_def THRESHOLD_RANGE_def)

lemma written_pixel_alpha:
  assumes "0 \<le> i" "i * 4 + 3 < int (length px)"
  shows "written_pixel mk ex ab bc i px ! nat (i * 4 + 3) =
     (let m = mk ! nat i; e = (case ex of None \<Rightarrow> m | Some em \<Rightarrow> em ! nat i) in
      if m > 0.55 then 255
      else if m < 0.45 then (if ab \<noteq> 0 \<and> e > 0.5 then 255 else 0)
      else word_of_int (clamp_int (c_round (transition_value m)) 0 255))"
proof -
  have d: "nat (i * 4 + 3) < length px"
    using assms by linarith
  show ?thesis
    unfolding written_pixel_def thresholds Let_def
    using d by (simp only: nth_list_update_eq length_list_update if_distrib[of "\<lambda>xs. xs ! _"] cong: if_cong)
qed

lemma upd4_nth:
  assumes "a0 < a1" "a1 < a2" "a2 < a3" "a3 < length xs"
  shows "xs[a0 := x0, a1 := x1, a2 := x2, a3 := x3] ! a0 = x0"
    "xs[a0 := x0, a1 := x1, a2 := x2, a3 := x3] ! a1 = x1"
    "xs[a0 := x0, a1 := x1, a2 := x2, a3 := x3] ! a2 = x2"
    "xs[a3 := x3] ! a0 = xs ! a0" "xs[a3 := x3] ! a1 = xs ! a1" "xs[a3 := x3] ! a2 = xs ! a2"
  using assms by simp_all

lemma written_pixel_rgb:
  assumes "0 \<le> i" "i * 4 + 3 < int (length px)"
  shows "written_pixel mk ex ab bc i px ! nat (i * 4) =
     (let m = mk ! nat i; e = (case ex of None \<Rightarrow> m | Some em \<Rightarrow> em ! nat i) in
      if m < 0.45 \<and> ab \<noteq> 0 \<and> e > 0.5 then r bc else px ! nat (i * 4))"
    "written_pixel mk ex ab bc i px ! nat (i * 4 + 1) =
     (let m = mk ! nat i; e = (case ex of None \<Rightarrow> m | Some em \<Rightarrow> em ! nat i) in
      if m < 0.45 \<and> ab \<noteq> 0 \<and> e > 0.5 then g bc else px ! nat (i * 4 + 1))"
    "written_pixel mk ex ab bc i px ! nat (i * 4 + 2) =
     (let m = mk ! nat i; e = (case ex of None \<Rightarrow> m | Some em \<Rightarrow> em ! nat i) in
      if m < 0.45 \<and> ab \<noteq> 0 \<and> e > 0.5 then b bc else px ! nat (i * 4 + 2))"
proof -
  have d: "nat (i * 4) < nat (i * 4 + 1)" "nat (i * 4 + 1) < nat (i * 4 + 2)"
    "nat (i * 4 + 2) < nat (i * 4 + 3)" "nat (i * 4 + 3) < length px"
    using assms by linarith+
  note u = upd4_nth[OF d]
  define m where "m = mk ! nat i"
  define e where "e = (case ex of None \<Rightarrow> m | Some em \<Rightarrow> em ! nat i)"
  have w: "written_pixel mk ex ab bc i px =
      (if m > 0.55 then px[nat (i * 4 + 3) := 255]
      else if m < 0.45 then
        (if ab \<noteq> 0 \<and> e > 0.5
         then px[nat (i * 4) := r bc, nat (i * 4 + 1) := g bc, nat (i * 4 + 2) := b bc,
                 nat (i * 4 + 3) := 255]
         else px[nat (i * 4 + 3) := 0])
      else px[nat (i * 4 + 3) :=
                word_of_int (clamp_int (c_round (transition_value m)) 0 255)])"
    unfolding written_pixel_def thresholds Let_def m_def e_def ..
  have c: "\<not> (m > 0.55 \<and> m < 0.45)" by (simp add: not_less) linarith
  show "written_pixel mk ex ab bc i px ! nat (i * 4) =
     (let m = mk ! nat i; e = (case ex of None \<Rightarrow> m | Some em \<Rightarrow> em ! nat i) in
      if m < 0.45 \<and> ab \<noteq> 0 \<and> e > 0.5 then r bc else px ! nat (i * 4))"
    unfolding Let_def m_def[symmetric] e_def[symmetric] w
    using c by (cases "m > 0.55"; cases "m < 0.45"; cases "ab \<noteq> 0 \<and> e > 0.5") (simp_all only: u if_True if_False simp_thms)
  show "written_pixel mk ex ab bc i px ! nat (i * 4 + 1) =
     (let m = mk ! nat i; e = (case ex of None \<Rightarrow> m | Some em \<Rightarrow> em ! nat i) in
      if m < 0.45 \<and> ab \<noteq> 0 \<and> e > 0.5 then g bc else px ! nat (i * 4 + 1))"
    unfolding Let_def m_def[symmetric] e_def[symmetric] w
    using c by (cases "m > 0.55"; cases "m < 0.45"; cases "ab \<noteq> 0 \<and> e > 0.5") (simp_all only: u if_True if_False simp_thms)
  show "written_pixel mk ex ab bc i px ! nat (i * 4 + 2) =
     (let m = mk ! nat i; e = (case ex of None \<Rightarrow> m | Some em \<Rightarrow> em ! nat i) in
      if m < 0.45 \<and> ab \<noteq> 0 \<and> e > 0.5 then b bc else px ! nat (i * 4 + 2))"
    unfolding Let_def m_def[symmetric] e_def[symmetric] w
    using c by (cases "m > 0.55"; cases "m < 0.45"; cases "ab \<noteq> 0 \<and> e > 0.5") (simp_all only: u if_True if_False simp_thms)
qed


lemma apply_pixel:
  assumes wf: "0 < width" "0 < height" "length mk = nat (width * height)"
    "length px = nat (4 * (width * height))"
    "\<forall>em. ex = Some em \<longrightarrow> length em = nat (width * height)"
    and i: "0 \<le> i" "i < width * height"
  shows "\<exists>px'. apply_sticker_mask_native (Some px) (Some mk) width height ab bc bw ex
             = Some (MASK_PROCESSOR_SUCCESS, Some px') \<and>
           length px' = length px \<and>
           px' ! nat (i * 4) = written_pixel mk ex ab bc i px ! nat (i * 4) \<and>
           px' ! nat (i * 4 + 1) = written_pixel mk ex ab bc i px ! nat (i * 4 + 1) \<and>
           px' ! nat (i * 4 + 2) = written_pixel mk ex ab bc i px ! nat (i * 4 + 2) \<and>
           px' ! nat (i * 4 + 3) = written_pixel mk ex ab bc i px ! nat (i * 4 + 3)"
proof -
  from wf have "\<exists>px'. apply_sticker_mask_native (Some px) (Some mk) width height ab bc bw ex
             = Some (MASK_PROCESSOR_SUCCESS, Some px') \<and> length px' = length px \<and>
           (\<forall>j<length px. px' ! j = written_pixel mk ex ab bc (int j div 4) px ! j)"
    by (intro apply_result) simp_all
  then
  obtain px' where p: "apply_sticker_mask_native (Some px) (Some mk) width height ab bc bw ex
             = Some (MASK_PROCESSOR_SUCCESS, Some px')" "length px' = length px"
     and all: "\<And>j. j < length px \<Longrightarrow> px' ! j = written_pixel mk ex ab bc (int j div 4) px ! j"
    by blast
  have k: "nat (i * 4 + k) < length px \<and> int (nat (i * 4 + k)) div 4 = i"
    if "0 \<le> k" "k < 4" for k
    using that i wf(4) by simp
  have "px' ! nat (i * 4 + k) = written_pixel mk ex ab bc i px ! nat (i * 4 + k)"
    if "0 \<le> k" "k < 4" for k
    using all[of "nat (i * 4 + k)"] k[OF that] by simp
  from this[of 0] this[of 1] this[of 2] this[of 3] p show ?thesis by simp
qed


lemma apply_pixel_bytes:
  assumes wf: "0 < width" "0 < height" "length mk = nat (width * height)"
    "length px = nat (4 * (width * height))"
    "\<forall>em. ex = Some em \<longrightarrow> length em = nat (width * height)"
    and i: "0 \<le> i" "i < width * height"
  shows "\<exists>px'. apply_sticker_mask_native (Some px) (Some mk) width height ab bc bw ex
             = Some (MASK_PROCESSOR_SUCCESS, Some px') \<and>
           length px' = length px \<and>
           px' ! nat (i * 4) =
             (let m = mk ! nat i; e = (case ex of None \<Rightarrow> m | Some em \<Rightarrow> em ! nat i) in
              if m < 0.45 \<and> ab \<noteq> 0 \<and> e > 0.5 then r bc else px ! nat (i * 4)) \<and>
           px' ! nat (i * 4 + 1) =
             (let m = mk ! nat i; e = (case ex of None \<Rightarrow> m | Some em \<Rightarrow> em ! nat i) in
              if m < 0.45 \<and> ab \<noteq> 0 \<and> e > 0.5 then g bc else px ! nat (i * 4 + 1)) \<and>
           px' ! nat (i * 4 + 2) =
             (let m = mk ! nat i; e = (case ex of None \<Rightarrow> m | Some em \<Rightarrow> em ! nat i) in
              if m < 0.45 \<and> ab \<noteq> 0 \<and> e > 0.5 then b bc else px ! nat (i * 4 + 2)) \<and>
           px' ! nat (i * 4 + 3) =
             (let m = mk ! nat i; e = (case ex of None \<Rightarrow> m | Some em \<Rightarrow> em ! nat i) in
              if m > 0.55 then 255
              else if m < 0.45 then (if ab \<noteq> 0 \<and> e > 0.5 then 255 else 0)
              else word_of_int (clamp_int (c_round (transition_value m)) 0 255))"
proof -
  have r: "i * 4 + 3 < int (length px)" using wf(4) i by simp
  show ?thesis
    using apply_pixel[OF wf i, of ab bc bw]
    unfolding written_pixel_alpha[OF i(1) r] written_pixel_rgb[OF i(1) r] .
qed

section \<open>Properties of the compositor\<close>

text \<open>
  Claim C3.  A pixel whose mask value exceeds 0.55 gets alpha 255 and keeps its R, G and B
  bytes, whatever \<open>add_border\<close>, \<open>border_width\<close> and the expanded mask are.
\<close>

theorem foreground_alpha_opaque:
  assumes "0 < width" "0 < height" "length mk = nat (width * height)"
    "length px = nat (4 * (width * height))"
    "\<forall>em. ex = Some em \<longrightarrow> length em = nat (width * height)"
    and "0 \<le> i" "i < width * height" and "mk ! nat i > 0.55"
  shows "\<exists>px'. apply_sticker_mask_native (Some px) (Some mk) width height ab bc bw ex
             = Some (MASK_PROCESSOR_SUCCESS, Some px') \<and>
           px' ! nat (i * 4 + 3) = 255 \<and>
           px' ! nat (i * 4) = px ! nat (i * 4) \<and>
           px' ! nat (i * 4 + 1) = px ! nat (i * 4 + 1) \<and>
           px' ! nat (i * 4 + 2) = px ! nat (i * 4 + 2)"
proof -
  have lo: "\<not> mk ! nat i < 0.45" using assms(8) by simp
  from apply_pixel_bytes[OF assms(1-7), of ab bc bw] show ?thesis
    unfolding Let_def using assms(8) lo by (simp only: if_True if_False simp_thms) blast
qed

theorem foreground_alpha_opaque_witness:
  "(0::int) < 1 \<and> length [0.8::real] = nat (1 * 1) \<and>
   length [10, 20, 30, 40 :: byte] = nat (4 * (1 * 1)) \<and>
   [0.8::real] ! nat 0 > 0.55 \<and>
   (\<exists>px'. apply_sticker_mask_native (Some [10, 20, 30, 40]) (Some [0.8]) 1 1 1
             \<lparr>r = 1, g = 2, b = 3\<rparr> 2 None = Some (MASK_PROCESSOR_SUCCESS, Some px') \<and>
           px' ! nat (0 * 4 + 3) = 255 \<and>
           px' ! nat (0 * 4) = [10, 20, 30, 40] ! nat (0 * 4) \<and>
           px' ! nat (0 * 4 + 1) = [10, 20, 30, 40] ! nat (0 * 4 + 1) \<and>
           px' ! nat (0 * 4 + 2) = [10, 20, 30, 40] ! nat (0 * 4 + 2))"
  using foreground_alpha_opaque [of 1 1 "[0.8]" "[10, 20, 30, 40]" None 0 1
      "\<lparr>r = 1, g = 2, b = 3\<rparr>" 2]
  by simp

text \<open>
  Claim C4.  A pixel whose mask value is below 0.45 is painted with the border colour and
  alpha 255 when \<open>add_border\<close> is set and the expanded-mask value there (the mask value
  itself when no expanded mask is given) exceeds 0.5; otherwise its alpha becomes 0 and its
  R, G and B bytes are kept.
\<close>

theorem low_mask_border_or_background:
  assumes "0 < width" "0 < height" "length mk = nat (width * height)"
    "length px = nat (4 * (width * height))"
    "\<forall>em. ex = Some em \<longrightarrow> length em = nat (width * height)"
    and "0 \<le> i" "i < width * height" and "mk ! nat i < 0.45"
  shows "\<exists>px'. apply_sticker_mask_native (Some px) (Some mk) width height ab bc bw ex
             = Some (MASK_PROCESSOR_SUCCESS, Some px') \<and>
           (if ab \<noteq> 0 \<and> (case ex of None \<Rightarrow> mk ! nat i | Some em \<Rightarrow> em ! nat i) > 0.5
            then px' ! nat (i * 4) = r bc \<and> px' ! nat (i * 4 + 1) = g bc \<and>
                 px' ! nat (i * 4 + 2) = b bc \<and> px' ! nat (i * 4 + 3) = 255
            else px' ! nat (i * 4) = px ! nat (i * 4) \<and>
                 px' ! nat (i * 4 + 1) = px ! nat (i * 4 + 1) \<and>
                 px' ! nat (i * 4 + 2) = px ! nat (i * 4 + 2) \<and> px' ! nat (i * 4 + 3) = 0)"
proof -
  have hi: "\<not> mk ! nat i > 0.55" using assms(8) by simp
  from apply_pixel_bytes[OF assms(1-7), of ab bc bw] show ?thesis
    unfolding Let_def using assms(8) hi
    by (cases "ab \<noteq> 0 \<and> (case ex of None \<Rightarrow> mk ! nat i | Some em \<Rightarrow> em ! nat i) > 0.5")
       ((simp only: if_True if_False simp_thms), blast)+
qed

theorem low_mask_border_or_background_witness:
  "(0::int) < 1 \<and> length [0.2::real] = nat (1 * 1) \<and>
   length [10, 20, 30, 40 :: byte] = nat (4 * (1 * 1)) \<and>
   length [1::real] = nat (1 * 1) \<and> [0.2::real] ! nat 0 < 0.45 \<and>
   (\<exists>px'. apply_sticker_mask_native (Some [10, 20, 30, 40]) (Some [0.2]) 1 1 1
             \<lparr>r = 1, g = 2, b = 3\<rparr> 2 (Some [1]) = Some (MASK_PROCESSOR_SUCCESS, Some px') \<and>
           px' ! nat (0 * 4) = 1 \<and> px' ! nat (0 * 4 + 1) = 2 \<and>
           px' ! nat (0 * 4 + 2) = 3 \<and> px' ! nat (0 * 4 + 3) = 255)"
  using low_mask_border_or_background [of 1 1 "[0.2]" "[10, 20, 30, 40]" "Some [1]" 0 1
      "\<lparr>r = 1, g = 2, b = 3\<rparr>" 2]
  by simp


text \<open>
  Claim C5.  The compositor changes R, G and B of border pixels only (mask below 0.45,
  \<open>add_border\<close> set, expanded value above 0.5), where it writes the border colour and
  alpha 255; every other pixel keeps its R, G and B bytes and only its alpha is written.
\<close>

theorem rgb_written_only_for_border:
  assumes "0 < width" "0 < height" "length mk = nat (width * height)"
    "length px = nat (4 * (width * height))"
    "\<forall>em. ex = Some em \<longrightarrow> length em = nat (width * height)"
  shows "\<exists>px'. apply_sticker_mask_native (Some px) (Some mk) width height ab bc bw ex
             = Some (MASK_PROCESSOR_SUCCESS, Some px') \<and>
           length px' = length px \<and>
           (\<forall>i. 0 \<le> i \<and> i < width * height \<longrightarrow>
              (if mk ! nat i < 0.45 \<and> ab \<noteq> 0 \<and>
                  (case ex of None \<Rightarrow> mk ! nat i | Some em \<Rightarrow> em ! nat i) > 0.5
               then px' ! nat (i * 4) = r bc \<and> px' ! nat (i * 4 + 1) = g bc \<and>
                    px' ! nat (i * 4 + 2) = b bc \<and> px' ! nat (i * 4 + 3) = 255
               else px' ! nat (i * 4) = px ! nat (i * 4) \<and>
                    px' ! nat (i * 4 + 1) = px ! nat (i * 4 + 1) \<and>
                    px' ! nat (i * 4 + 2) = px ! nat (i * 4 + 2)))"
proof -
  have pos: "0 < width * height" using assms(1,2) by simp
  from apply_pixel_bytes[OF assms _ pos, of ab bc bw]
  obtain px' where run: "apply_sticker_mask_native (Some px) (Some mk) width height ab bc bw ex
             = Some (MASK_PROCESSOR_SUCCESS, Some px')" and len: "length px' = length px"
    by auto
  have "if mk ! nat i < 0.45 \<and> ab \<noteq> 0 \<and>
                  (case ex of None \<Rightarrow> mk ! nat i | Some em \<Rightarrow> em ! nat i) > 0.5
               then px' ! nat (i * 4) = r bc \<and> px' ! nat (i * 4 + 1) = g bc \<and>
                    px' ! nat (i * 4 + 2) = b bc \<and> px' ! nat (i * 4 + 3) = 255
               else px' ! nat (i * 4) = px ! nat (i * 4) \<and>
                    px' ! nat (i * 4 + 1) = px ! nat (i * 4 + 1) \<and>
                    px' ! nat (i * 4 + 2) = px ! nat (i * 4 + 2)"
    if i: "0 \<le> i" "i < width * height" for i
  proof -
    from apply_pixel_bytes[OF assms i, of ab bc bw] run
    have bytes: "px' ! nat (i * 4) =
             (let m = mk ! nat i; e = (case ex of None \<Rightarrow> m | Some em \<Rightarrow> em ! nat i) in
              if m < 0.45 \<and> ab \<noteq> 0 \<and> e > 0.5 then r bc else px ! nat (i * 4))"
           "px' ! nat (i * 4 + 1) =
             (let m = mk ! nat i; e = (case ex of None \<Rightarrow> m | Some em \<Rightarrow> em ! nat i) in
              if m < 0.45 \<and> ab \<noteq> 0 \<and> e > 0.5 then g bc else px ! nat (i * 4 + 1))"
           "px' ! nat (i * 4 + 2) =
             (let m = mk ! nat i; e = (case ex of None \<Rightarrow> m | Some em \<Rightarrow> em ! nat i) in
              if m < 0.45 \<and> ab \<noteq> 0 \<and> e > 0.5 then b bc else px ! nat (i * 4 + 2))"
           "px' ! nat (i * 4 + 3) =
             (let m = mk ! nat i; e = (case ex of None \<Rightarrow> m | Some em \<Rightarrow> em ! nat i) in
              if m > 0.55 then 255
              else if m < 0.45 then (if ab \<noteq> 0 \<and> e > 0.5 then 255 else 0)
              else word_of_int (clamp_int (c_round (transition_value m)) 0 255))"
      by auto
    show ?thesis
    proof (cases "mk ! nat i < 0.45 \<and> ab \<noteq> 0 \<and>
                  (case ex of None \<Rightarrow> mk ! nat i | Some em \<Rightarrow> em ! nat i) > 0.5")
      case True
      then have "\<not> mk ! nat i > 0.55" by simp
      with True bytes show ?thesis unfolding Let_def by (simp only: if_True if_False simp_thms)
    next
      case False
      with bytes(1-3) show ?thesis unfolding Let_def by (simp only: if_True if_False simp_thms)
    qed
  qed
  with run len show ?thesis by blast
qed

lemma written_pixel_None:
  assumes "j < length px" "j mod 4 \<noteq> 3"
  shows "written_pixel mk None ab bc (int j div 4) px ! j = px ! j"
proof -
  define m where "m = mk ! nat (int j div 4)"
  have nb: "\<not> (m < THRESHOLD_LOW \<and> ab \<noteq> 0 \<and> m > THRESHOLD)"
    unfolding thresholds by (simp add: not_less) linarith
  have "int j = int j div 4 * 4 + int j mod 4" by simp
  moreover have "int j mod 4 = int (j mod 4)" by (simp add: zmod_int)
  ultimately have ne: "nat (int j div 4 * 4 + 3) \<noteq> j" using assms(2) by linarith
  have w: "written_pixel mk None ab bc (int j div 4) px =
      (if m > THRESHOLD_HIGH then px[nat (int j div 4 * 4 + 3) := 255]
       else if m < THRESHOLD_LOW then px[nat (int j div 4 * 4 + 3) := 0]
       else px[nat (int j div 4 * 4 + 3) :=
          word_of_int (clamp_int (c_round (transition_value m)) 0 255)])"
    using nb unfolding written_pixel_def Let_def m_def[symmetric] option.case
    by (cases "m < THRESHOLD_LOW") (simp_all only: if_True if_False simp_thms)
  have "\<exists>v. written_pixel mk None ab bc (int j div 4) px = px[nat (int j div 4 * 4 + 3) := v]"
    unfolding w by (cases "m > THRESHOLD_HIGH"; cases "m < THRESHOLD_LOW")
      (simp_all only: if_True if_False simp_thms, blast+)
  then obtain v where "written_pixel mk None ab bc (int j div 4) px = px[nat (int j div 4 * 4 + 3) := v]"
    by blast
  then show ?thesis using ne by simp
qed

theorem rgb_written_only_for_border_witness:
  "(0::int) < 2 \<and> (0::int) < 1 \<and> length [0.2, 0.5 :: real] = nat (2 * 1) \<and>
   length [10, 20, 30, 40, 50, 60, 70, 80 :: byte] = nat (4 * (2 * 1)) \<and>
   length [1, 0 :: real] = nat (2 * 1) \<and>
   (\<exists>px'. apply_sticker_mask_native (Some [10, 20, 30, 40, 50, 60, 70, 80]) (Some [0.2, 0.5])
             2 1 1 \<lparr>r = 1, g = 2, b = 3\<rparr> 2 (Some [1, 0])
             = Some (MASK_PROCESSOR_SUCCESS, Some px') \<and>
           px' ! 0 = 1 \<and> px' ! 1 = 2 \<and> px' ! 2 = 3 \<and> px' ! 3 = 255 \<and>
           px' ! 4 = 50 \<and> px' ! 5 = 60 \<and> px' ! 6 = 70)"
  using rgb_written_only_for_border [of 2 1 "[0.2, 0.5]" "[10, 20, 30, 40, 50, 60, 70, 80]"
      "Some [1, 0]" 1 "\<lparr>r = 1, g = 2, b = 3\<rparr>" 2]
  apply simp
  apply (elim exE conjE)
  subgoal for px'
    apply (rule exI[of _ px'])
    apply (frule spec[of _ 0])
    apply (drule spec[of _ 1])
    apply simp
    done
  done

text \<open>
  Claim C10.  Without an expanded mask (\<^verbatim>\<open>NULL\<close>) the border branch cannot be taken, so
  no R, G or B byte of the pixel buffer changes: only bytes at offsets 3 mod 4 are written.
\<close>

theorem no_expanded_mask_rgb_untouched:
  assumes "0 < width" "0 < height" "length mk = nat (width * height)"
    "length px = nat (4 * (width * height))"
  shows "\<exists>px'. apply_sticker_mask_native (Some px) (Some mk) width height ab bc bw None
             = Some (MASK_PROCESSOR_SUCCESS, Some px') \<and>
           length px' = length px \<and>
           (\<forall>j<length px. j mod 4 \<noteq> 3 \<longrightarrow> px' ! j = px ! j)"
proof -
  from assms have "\<exists>px'. apply_sticker_mask_native (Some px) (Some mk) width height ab bc bw None
             = Some (MASK_PROCESSOR_SUCCESS, Some px') \<and> length px' = length px \<and>
           (\<forall>j<length px. px' ! j = written_pixel mk None ab bc (int j div 4) px ! j)"
    by (intro apply_result) simp_all
  then show ?thesis using written_pixel_None[of _ px mk ab bc] by auto
qed

theorem no_expanded_mask_rgb_untouched_witness:
  "(0::int) < 1 \<and> length [0.2 :: real] = nat (1 * 1) \<and>
   length [10, 20, 30, 40 :: byte] = nat (4 * (1 * 1)) \<and>
   (\<exists>px'. apply_sticker_mask_native (Some [10, 20, 30, 40]) (Some [0.2])
             1 1 1 \<lparr>r = 1, g = 2, b = 3\<rparr> 2 None
             = Some (MASK_PROCESSOR_SUCCESS, Some px') \<and>
           px' ! 0 = 10 \<and> px' ! 1 = 20 \<and> px' ! 2 = 30)"
  using no_expanded_mask_rgb_untouched [of 1 1 "[0.2]" "[10, 20, 30, 40]" 1
      "\<lparr>r = 1, g = 2, b = 3\<rparr>" 2]
  apply simp
  apply (elim exE conjE)
  subgoal for px'
    apply (rule exI[of _ px'])
    apply (frule spec[of _ 0])
    apply (frule spec[of _ 1])
    apply (drule spec[of _ 2])
    apply simp
    done
  done


lemma rne_cases: "rne v = \<lfloor>v\<rfloor> \<or> rne v = \<lfloor>v\<rfloor> + 1"
  by (simp add: rne_def Let_def)

lemma rne_of_int [simp]: "rne (of_int n) = n"
  by (simp add: rne_def Let_def)

lemma rne_mono:
  assumes "xa \<le> xb" shows "rne xa \<le> rne xb"
proof (cases "\<lfloor>xa\<rfloor> = \<lfloor>xb\<rfloor>")
  case False
  then have "\<lfloor>xa\<rfloor> + 1 \<le> \<lfloor>xb\<rfloor>" using floor_mono[OF assms] by linarith
  moreover have "rne xa \<le> \<lfloor>xa\<rfloor> + 1" using rne_cases[of xa] by linarith
  moreover have "\<lfloor>xb\<rfloor> \<le> rne xb" using rne_cases[of xb] by linarith
  ultimately show ?thesis by linarith
next
  case True
  have d: "xa - of_int \<lfloor>xb\<rfloor> \<le> xb - of_int \<lfloor>xb\<rfloor>" using assms by simp
  show ?thesis
    using d unfolding rne_def Let_def True
    by (auto split: if_splits)
qed

lemma rne_lower: "of_int n \<le> v \<Longrightarrow> n \<le> rne v"
  using rne_mono[of "of_int n" v] by simp

lemma rne_upper: "v \<le> of_int n \<Longrightarrow> rne v \<le> n"
  using rne_mono[of v "of_int n"] by simp

lemma binade_bounds:
  "0 < v \<Longrightarrow> 2 powi (binade v) \<le> v \<and> v < 2 powi (binade v + 1)"
proof (induction v rule: binade.induct)
  case (1 v)
  show ?case
  proof (cases "2 \<le> v")
    case True
    then have xb: "binade v = binade (v / 2) + 1" using "1.prems" by (subst binade.simps) simp
    have "2 powi binade (v / 2) \<le> v / 2 \<and> v / 2 < 2 powi (binade (v / 2) + 1)"
      using "1.IH"(1) True "1.prems" by simp
    then show ?thesis unfolding xb by (simp add: power_int_add)
  next
    case False
    show ?thesis
    proof (cases "v < 1")
      case True
      then have xb: "binade v = binade (v * 2) - 1"
        using "1.prems" False by (subst binade.simps) simp
      have ih: "2 powi binade (v * 2) \<le> v * 2 \<and> v * 2 < 2 powi (binade (v * 2) + 1)"
        using "1.IH"(2) True False "1.prems" by simp
      have "(2::real) powi (binade (v * 2) - 1) = 2 powi binade (v * 2) / 2"
        by (simp add: power_int_diff)
      moreover have "(2::real) powi (binade (v * 2) - 1 + 1) = 2 powi (binade (v * 2) + 1) / 2"
        by (simp add: power_int_add)
      ultimately show ?thesis unfolding xb using ih by simp
    next
      case ge1: False
      then have xb: "binade v = 0" using "1.prems" False by (subst binade.simps) simp
      show ?thesis unfolding xb using ge1 False by simp
    qed
  qed
qed

lemma binade_mono:
  assumes "0 < xa" "xa \<le> xb" shows "binade xa \<le> binade xb"
proof -
  have "2 powi binade xa \<le> xa" using binade_bounds[of xa] assms by simp
  also have "\<dots> \<le> xb" by fact
  also have "\<dots> < 2 powi (binade xb + 1)" using binade_bounds[of xb] assms by simp
  finally have "(2::real) powi binade xa < 2 powi (binade xb + 1)" .
  then have "binade xa < binade xb + 1"
    by (metis power_int_increasing not_less one_le_numeral)
  then show ?thesis by simp
qed

lemma to_double_pos_bounds:
  assumes "0 < v"
  shows "2 powi (binade v) \<le> to_double v" "to_double v \<le> 2 powi (binade v + 1)"
proof -
  define e where "e = binade v"
  define u :: real where "u = 2 powi (e - 52)"
  have u: "0 < u" by (simp add: u_def)
  have td: "to_double v = of_int (rne (v / u)) * u"
    using assms by (simp add: to_double_def e_def u_def Let_def)
  have xb: "2 powi e \<le> v" "v < 2 powi (e + 1)" using binade_bounds[OF assms] by (simp_all add: e_def)
  have lo: "(2::real) powi e = 2 ^ 52 * u" by (simp add: u_def power_int_diff)
  have hi: "(2::real) powi (e + 1) = 2 ^ 53 * u" by (simp add: u_def power_int_diff power_int_add)
  have "of_int (2 ^ 52) \<le> v / u" using xb(1) u by (simp add: lo pos_le_divide_eq)
  then have "2 ^ 52 \<le> rne (v / u)" by (rule rne_lower)
  then have "(2::real) ^ 52 \<le> of_int (rne (v / u))" by (metis of_int_le_iff of_int_numeral of_int_power)
  then show "2 powi (binade v) \<le> to_double v"
    unfolding td e_def[symmetric] lo using u by simp
  have "v / u \<le> of_int (2 ^ 53)" using xb(2) u by (simp add: hi pos_divide_le_eq)
  then have "rne (v / u) \<le> 2 ^ 53" by (rule rne_upper)
  then have "of_int (rne (v / u)) \<le> (2::real) ^ 53" by (metis of_int_le_iff of_int_numeral of_int_power)
  then show "to_double v \<le> 2 powi (binade v + 1)"
    unfolding td e_def[symmetric] hi using u by simp
qed

lemma to_double_mono_pos:
  assumes "0 < xa" "xa \<le> xb" shows "to_double xa \<le> to_double xb"
proof (cases "binade xa = binade xb")
  case True
  define u :: real where "u = 2 powi (binade xb - 52)"
  have u: "0 < u" by (simp add: u_def)
  have "to_double xa = of_int (rne (xa / u)) * u" "to_double xb = of_int (rne (xb / u)) * u"
    using assms True by (simp_all add: to_double_def u_def Let_def)
  moreover have "rne (xa / u) \<le> rne (xb / u)"
    using assms u by (intro rne_mono divide_right_mono) simp_all
  ultimately show ?thesis using u by simp
next
  case False
  then have "binade xa + 1 \<le> binade xb" using binade_mono[OF assms] by linarith
  then have "(2::real) powi (binade xa + 1) \<le> 2 powi binade xb"
    by (intro power_int_increasing) simp_all
  moreover have "to_double xa \<le> 2 powi (binade xa + 1)" using to_double_pos_bounds(2)[OF assms(1)] .
  moreover have "2 powi binade xb \<le> to_double xb" using to_double_pos_bounds(1)[of xb] assms by simp
  ultimately show ?thesis by linarith
qed

lemma to_double_minus: "to_double (- v) = - to_double v"
  by (simp add: to_double_def Let_def)

lemma to_double_pos: "0 < v \<Longrightarrow> 0 < to_double v"
proof -
  assume v: "0 < v"
  have "(0::real) < 2 powi binade v" by simp
  with to_double_pos_bounds(1)[OF v] show ?thesis by linarith
qed

lemma to_double_mono:
  assumes "xa \<le> xb" shows "to_double xa \<le> to_double xb"
proof -
  consider "0 < xa" | "xa \<le> 0" "0 \<le> xb" | "xb < 0" by linarith
  then show ?thesis
  proof cases
    case 1
    then show ?thesis using assms by (rule to_double_mono_pos)
  next
    case 2
    have "to_double xa \<le> 0"
    proof (cases "xa = 0")
      case True then show ?thesis by (simp add: to_double_def)
    next
      case False
      then have "0 < - xa" using 2 by simp
      from to_double_pos[OF this] show ?thesis by (simp add: to_double_minus)
    qed
    moreover have "0 \<le> to_double xb"
    proof (cases "xb = 0")
      case True then show ?thesis by (simp add: to_double_def)
    next
      case False
      then have "0 < xb" using 2 by simp
      from to_double_pos[OF this] show ?thesis by simp
    qed
    ultimately show ?thesis by linarith
  next
    case 3
    then have "0 < - xb" "- xb \<le> - xa" using assms by simp_all
    from to_double_mono_pos[OF this] show ?thesis by (simp add: to_double_minus)
  qed
qed

lemma transition_value_mono:
  assumes "m1 \<le> m2" shows "transition_value m1 \<le> transition_value m2"
proof -
  define tl where "tl = double_sub (to_double THRESHOLD) (to_double 0.05)"
  have range_pos: "0 < to_double THRESHOLD_RANGE"
    by (rule to_double_pos) (simp add: THRESHOLD_RANGE_def)
  have scale_pos: "0 < to_double 255.0" by (rule to_double_pos) simp
  have "double_sub m1 tl \<le> double_sub m2 tl"
    unfolding double_sub_def using assms by (intro to_double_mono) simp
  then have "double_div (double_sub m1 tl) (to_double THRESHOLD_RANGE)
      \<le> double_div (double_sub m2 tl) (to_double THRESHOLD_RANGE)"
    unfolding double_div_def using range_pos
    by (intro to_double_mono divide_right_mono) simp_all
  then have "double_mul (double_div (double_sub m1 tl) (to_double THRESHOLD_RANGE)) (to_double 255.0)
      \<le> double_mul (double_div (double_sub m2 tl) (to_double THRESHOLD_RANGE)) (to_double 255.0)"
    unfolding double_mul_def using scale_pos
    by (intro to_double_mono mult_right_mono) simp_all
  then show ?thesis by (simp add: transition_value_def tl_def)
qed

lemma c_round_mono: "x \<le> y \<Longrightarrow> c_round x \<le> c_round y"
  unfolding c_round_def
  by (auto intro!: floor_mono ceiling_mono) linarith+

lemma clamp_int_mono: "x \<le> y \<Longrightarrow> clamp_int x 0 255 \<le> clamp_int y 0 255"
  by (simp add: clamp_int_def)

lemma clamp_int_range: "0 \<le> clamp_int x 0 255 \<and> clamp_int x 0 255 \<le> 255"
  by (simp add: clamp_int_def)

lemma byte_of_int_mono:
  "0 \<le> x \<Longrightarrow> x \<le> y \<Longrightarrow> y \<le> 255 \<Longrightarrow> (word_of_int x :: byte) \<le> word_of_int y"
  by (simp add: word_le_def uint_word_of_int)

lemma alpha_level_range: "0 \<le> alpha_level m \<and> alpha_level m \<le> 255"
  using clamp_int_range by (simp add: alpha_level_def)

lemma alpha_level_mono:
  assumes "m1 \<le> m2" shows "alpha_level m1 \<le> alpha_level m2"
proof -
  consider "m2 > 0.55" | "m2 \<le> 0.55" "m1 < 0.45" | "m2 \<le> 0.55" "0.45 \<le> m1" by linarith
  then show ?thesis
  proof cases
    case 1
    then have "alpha_level m2 = 255" by (simp add: alpha_level_def)
    then show ?thesis using alpha_level_range[of m1] by simp
  next
    case 2
    then have "alpha_level m1 = 0" by (simp add: alpha_level_def)
    then show ?thesis using alpha_level_range[of m2] by simp
  next
    case 3
    have "clamp_int (c_round (transition_value m1)) 0 255
        \<le> clamp_int (c_round (transition_value m2)) 0 255"
      using assms by (intro clamp_int_mono c_round_mono transition_value_mono)
    moreover have "\<not> m1 > 0.55" "\<not> m2 < 0.45" "\<not> m2 > 0.55" "\<not> m1 < 0.45"
      using 3 assms by linarith+
    ultimately show ?thesis unfolding alpha_level_def by (simp only: if_False)
  qed
qed

lemma alpha_byte_level:
  assumes "\<not> (m < 0.45 \<and> ab \<noteq> 0 \<and> e > 0.5)"
  shows "(if m > 0.55 then 255
          else if m < 0.45 then (if ab \<noteq> (0::int) \<and> e > (0.5::real) then 255 else 0)
          else word_of_int (clamp_int (c_round (transition_value m)) 0 255))
         = (word_of_int (alpha_level m) :: byte)"
  using assms by (cases "m > 0.55"; cases "m < 0.45") (simp_all add: alpha_level_def)

text \<open>
  Claim C2, as amended.  In the transition band \<open>0.45 \<le> m \<le> 0.55\<close> the alpha written is
  \<open>clamp (round v) 0 255\<close>, where \<open>v\<close> is \<open>(m - 0.45) / 0.1 * 255\<close> as the double operations
  compute it (\<open>transition_value m\<close>).  The alpha of a pixel is monotonically
  non-decreasing in its mask value provided the pixel cannot be painted as border:
  \<open>add_border\<close> is off, or the expanded value at the pixel is at most 0.5, or no expanded
  mask is given.  (A border pixel has mask below 0.45 and alpha 255.)
\<close>

theorem transition_alpha_and_monotone:
  assumes "0 < width" "0 < height"
    and "length mk1 = nat (width * height)" "length px1 = nat (4 * (width * height))"
    and "length mk2 = nat (width * height)" "length px2 = nat (4 * (width * height))"
    and "\<forall>em. ex = Some em \<longrightarrow> length em = nat (width * height)"
    and "0 \<le> i" "i < width * height"
  shows "\<exists>p1 p2.
     apply_sticker_mask_native (Some px1) (Some mk1) width height ab bc bw ex
       = Some (MASK_PROCESSOR_SUCCESS, Some p1) \<and>
     apply_sticker_mask_native (Some px2) (Some mk2) width height ab bc bw ex
       = Some (MASK_PROCESSOR_SUCCESS, Some p2) \<and>
     (0.45 \<le> mk1 ! nat i \<and> mk1 ! nat i \<le> 0.55 \<longrightarrow>
        p1 ! nat (i * 4 + 3)
          = word_of_int (clamp_int (c_round (transition_value (mk1 ! nat i))) 0 255)) \<and>
     (mk1 ! nat i \<le> mk2 ! nat i \<and>
      (ab = 0 \<or> (\<forall>em. ex = Some em \<longrightarrow> em ! nat i \<le> 0.5)) \<longrightarrow>
        p1 ! nat (i * 4 + 3) \<le> p2 ! nat (i * 4 + 3))"
proof -
  define e where "e = (\<lambda>mk :: real list. case ex of None \<Rightarrow> mk ! nat i | Some em \<Rightarrow> em ! nat i)"
  define alpha :: "real list \<Rightarrow> byte" where "alpha = (\<lambda>mk.
     if mk ! nat i > 0.55 then 255
     else if mk ! nat i < 0.45 then (if ab \<noteq> 0 \<and> e mk > 0.5 then 255 else 0)
     else word_of_int (clamp_int (c_round (transition_value (mk ! nat i))) 0 255))"
  from apply_pixel_bytes[OF assms(1,2,3,4,7,8,9), of ab bc bw]
  obtain p1 where p1: "apply_sticker_mask_native (Some px1) (Some mk1) width height ab bc bw ex
       = Some (MASK_PROCESSOR_SUCCESS, Some p1)" "p1 ! nat (i * 4 + 3) = alpha mk1"
    unfolding Let_def alpha_def e_def by blast
  from apply_pixel_bytes[OF assms(1,2,5,6,7,8,9), of ab bc bw]
  obtain p2 where p2: "apply_sticker_mask_native (Some px2) (Some mk2) width height ab bc bw ex
       = Some (MASK_PROCESSOR_SUCCESS, Some p2)" "p2 ! nat (i * 4 + 3) = alpha mk2"
    unfolding Let_def alpha_def e_def by blast
  have trans: "alpha mk1 = word_of_int (clamp_int (c_round (transition_value (mk1 ! nat i))) 0 255)"
    if "0.45 \<le> mk1 ! nat i \<and> mk1 ! nat i \<le> 0.55"
  proof -
    have "\<not> mk1 ! nat i > 0.55" "\<not> mk1 ! nat i < 0.45" using that by linarith+
    then show ?thesis unfolding alpha_def by (simp only: if_False)
  qed
  have mono: "alpha mk1 \<le> alpha mk2"
    if h: "mk1 ! nat i \<le> mk2 ! nat i \<and> (ab = 0 \<or> (\<forall>em. ex = Some em \<longrightarrow> em ! nat i \<le> 0.5))"
  proof -
    have nb: "\<not> (mk ! nat i < 0.45 \<and> ab \<noteq> 0 \<and> e mk > 0.5)" for mk
    proof (cases ex)
      case None
      then have "e mk = mk ! nat i" by (simp add: e_def)
      then show ?thesis by (simp add: not_less) linarith
    next
      case (Some em)
      then have "e mk = em ! nat i" by (simp add: e_def)
      with h Some show ?thesis by auto
    qed
    have "alpha mk1 = word_of_int (alpha_level (mk1 ! nat i))"
      unfolding alpha_def by (rule alpha_byte_level[OF nb])
    moreover have "alpha mk2 = word_of_int (alpha_level (mk2 ! nat i))"
      unfolding alpha_def by (rule alpha_byte_level[OF nb])
    moreover have "(word_of_int (alpha_level (mk1 ! nat i)) :: byte)
        \<le> word_of_int (alpha_level (mk2 ! nat i))"
      using h alpha_level_range alpha_level_mono by (intro byte_of_int_mono) auto
    ultimately show ?thesis by simp
  qed
  from p1 p2 trans mono show ?thesis by metis
qed

theorem transition_alpha_and_monotone_witness:
  "(0::int) < 1 \<and> length [0.5 :: real] = nat (1 * 1) \<and>
   length [7, 7, 7, 7 :: byte] = nat (4 * (1 * 1)) \<and> length [0.53125 :: real] = nat (1 * 1) \<and>
   length [0 :: real] = nat (1 * 1) \<and> [0.5 :: real] ! nat 0 \<le> [0.53125] ! nat 0 \<and>
   (\<exists>p1 p2.
     apply_sticker_mask_native (Some [7, 7, 7, 7]) (Some [0.5]) 1 1 1 \<lparr>r = 1, g = 2, b = 3\<rparr> 2
       (Some [0]) = Some (MASK_PROCESSOR_SUCCESS, Some p1) \<and>
     apply_sticker_mask_native (Some [7, 7, 7, 7]) (Some [0.53125]) 1 1 1
       \<lparr>r = 1, g = 2, b = 3\<rparr> 2 (Some [0]) = Some (MASK_PROCESSOR_SUCCESS, Some p2) \<and>
     p1 ! nat (0 * 4 + 3)
       = word_of_int (clamp_int (c_round (transition_value ([0.5] ! nat 0))) 0 255) \<and>
     p1 ! nat (0 * 4 + 3) \<le> p2 ! nat (0 * 4 + 3))"
  using transition_alpha_and_monotone [of 1 1 "[0.5]" "[7, 7, 7, 7]" "[0.53125]" "[7, 7, 7, 7]"
      "Some [0]" 0 1 "\<lparr>r = 1, g = 2, b = 3\<rparr>" 2]
  by simp

text \<open>
  With \<open>add_border\<close> set and expanded value 1, mask value 0.25 gives alpha 255 while the
  larger mask value 0.5 gives alpha 127.  That alpha is 127 and not the 128 of the exactly
  computed formula: the double operations give 127.49999999999997.
\<close>

theorem alpha_monotone_counterexample:
  "apply_sticker_mask_native (Some [7, 7, 7, 7]) (Some [0.25]) 1 1 1 \<lparr>r = 1, g = 2, b = 3\<rparr> 1
     (Some [1]) = Some (MASK_PROCESSOR_SUCCESS, Some [1, 2, 3, 255]) \<and>
   apply_sticker_mask_native (Some [7, 7, 7, 7]) (Some [0.5]) 1 1 1 \<lparr>r = 1, g = 2, b = 3\<rparr> 1
     (Some [1]) = Some (MASK_PROCESSOR_SUCCESS, Some [7, 7, 7, 127]) \<and>
   (0.25 :: real) \<le> 0.5 \<and> \<not> ((255 :: byte) \<le> 127) \<and>
   clamp_int (c_round ((0.5 - 0.45) / 0.1 * 255)) 0 255 = 128 \<and> (127 :: byte) \<noteq> 128"
  by code_simp

text \<open>
  The double nearest to 0.55, which the code treats in the transition band, gets alpha 255
  there, as the foreground branch gives it.
\<close>

lemma transition_value_at_threshold_high:
  "to_double 0.55 = 2476979795053773 / 4503599627370496 \<and>
   clamp_int (c_round (transition_value (to_double 0.55))) 0 255 = 255"
  by code_simp

section \<open>Nested loops over a grid\<close>


lemma grid_loop_rule:
  assumes wh: "0 \<le> w" "0 \<le> h" and init: "Inv 0 s"
    and step: "\<And>y x t. 0 \<le> y \<Longrightarrow> y < h \<Longrightarrow> 0 \<le> x \<Longrightarrow> x < w \<Longrightarrow> Inv (y * w + x) t \<Longrightarrow>
                 \<exists>t'. cell y x t = Some t' \<and> Inv (y * w + x + 1) t'"
  shows "\<exists>s'. for_range 0 h (\<lambda>y. for_range 0 w (cell y)) s = Some s' \<and> Inv (h * w) s'"
proof -
  have row: "\<exists>t'. for_range 0 w (cell y) t = Some t' \<and> Inv ((y + 1) * w) t'"
    if y: "0 \<le> y" "y < h" and inv: "Inv (y * w) t" for y t
  proof -
    have "\<exists>t'. for_range 0 w (cell y) t = Some t' \<and>
            (\<lambda>x. Inv (y * w + x)) (if 0 \<le> w then w else 0) t'"
    proof (rule for_range_rule)
      show "Inv (y * w + 0) t" using inv by simp
    next
      fix x u assume "0 \<le> x" "x < w" "Inv (y * w + x) u"
      from step[OF y this] show "\<exists>t'. cell y x u = Some t' \<and> Inv (y * w + (x + 1)) t'"
        by (simp add: add.assoc)
    qed
    moreover have "y * w + w = (y + 1) * w" by (simp add: algebra_simps)
    ultimately show ?thesis using wh(1) by simp
  qed
  have "\<exists>s'. for_range 0 h (\<lambda>y. for_range 0 w (cell y)) s = Some s' \<and>
          (\<lambda>y. Inv (y * w)) (if 0 \<le> h then h else 0) s'"
  proof (rule for_range_rule)
    show "Inv (0 * w) s" using init by simp
  next
    fix y t assume "0 \<le> y" "y < h" "Inv (y * w) t"
    from row[OF this] show "\<exists>t'. for_range 0 w (cell y) t = Some t' \<and> Inv ((y + 1) * w) t'" .
  qed
  then show ?thesis using wh(2) by simp
qed

lemma cell_index:
  assumes "0 \<le> (x::int)" "x < w" "0 \<le> (y::int)" "y < h"
  shows "0 \<le> y * w + x" "y * w + x < h * w" "(y * w + x) div w = y" "(y * w + x) mod w = x"
proof -
  have w: "0 < w" using assms by linarith
  show "0 \<le> y * w + x" using assms w by simp
  have "y * w + x < y * w + w" using assms by simp
  also have "\<dots> = (y + 1) * w" by (simp add: algebra_simps)
  also have "\<dots> \<le> h * w" using assms w by (intro mult_right_mono) simp_all
  finally show "y * w + x < h * w" .
  show "(y * w + x) div w = y" using assms w by simp
  show "(y * w + x) mod w = x" using assms w by simp
qed


section \<open>Properties of the smoother\<close>

















section \<open>Properties of the expander\<close>


lemma cell_index_inj:
  assumes "0 \<le> (x::int)" "x < w" "0 \<le> x'" "x' < w" "0 \<le> (y::int)" "0 \<le> y'"
    "nat (y * w + x) = nat (y' * w + x')"
  shows "x = x' \<and> y = y'"
proof -
  have w: "0 < w" using assms by linarith
  have "0 \<le> y * w + x" "0 \<le> y' * w + x'" using assms w by simp_all
  with assms(7) have eq: "y * w + x = y' * w + x'" by linarith
  have "(y * w + x) div w = y" "(y' * w + x') div w = y'" using assms w by simp_all
  with eq have "y = y'" by simp
  with eq show ?thesis by simp
qed

lemma within_disk_abs:
  assumes "0 \<le> bw" "within_disk bw fx fy cx cy"
  shows "\<bar>cx - fx\<bar> \<le> bw" "\<bar>cy - fy\<bar> \<le> bw"
proof -
  have s: "(cx - fx)\<^sup>2 + (cy - fy)\<^sup>2 \<le> bw\<^sup>2"
    using assms(2) by (simp add: within_disk_def power2_eq_square)
  have "(cx - fx)\<^sup>2 \<le> bw\<^sup>2" using s zero_le_power2[of "cy - fy"] by linarith
  then show "\<bar>cx - fx\<bar> \<le> bw" using assms(1) by (simp add: abs_le_square_iff[symmetric])
  have "(cy - fy)\<^sup>2 \<le> bw\<^sup>2" using s zero_le_power2[of "cx - fx"] by linarith
  then show "\<bar>cy - fy\<bar> \<le> bw" using assms(1) by (simp add: abs_le_square_iff[symmetric])
qed

lemma within_disk_clamped:
  assumes "0 \<le> bw" "within_disk bw fx fy cx cy" "0 \<le> cx" "cx < w" "0 \<le> cy" "cy < h"
  shows "clamp_int (fx - bw) 0 (w - 1) \<le> cx" "cx \<le> clamp_int (fx + bw) 0 (w - 1)"
    "clamp_int (fy - bw) 0 (h - 1) \<le> cy" "cy \<le> clamp_int (fy + bw) 0 (h - 1)"
  using within_disk_abs[OF assms(1,2)] assms(3-6) unfolding clamp_int_def by auto

lemma stamp_row:
  fixes w h x y ny sx ex bwsq :: int
  assumes w: "0 < w" and ny: "0 \<le> ny" "ny < h" and sx: "0 \<le> sx" "sx \<le> ex + 1" "ex < w"
    and len: "length b0 = nat (h * w)"
  shows "\<exists>b1. for_range sx (ex + 1) (stamp_cell w bwsq x y ny) b0 = Some b1 \<and>
           length b1 = length b0 \<and>
           (\<forall>cx cy. 0 \<le> cx \<and> cx < w \<and> 0 \<le> cy \<and> cy < h \<longrightarrow>
              b1 ! nat (cy * w + cx) =
                (if cy = ny \<and> sx \<le> cx \<and> cx \<le> ex \<and>
                    int_wrap (int_wrap ((cx - x) * (cx - x)) + int_wrap ((cy - y) * (cy - y))) \<le> bwsq
                 then 1 else b0 ! nat (cy * w + cx)))"
proof -
  define D where "D = (\<lambda>cx cy. int_wrap (int_wrap ((cx - x) * (cx - x)) + int_wrap ((cy - y) * (cy - y))) \<le> bwsq)"
  define Inv where "Inv = (\<lambda>j t. length t = length b0 \<and>
     (\<forall>cx cy. 0 \<le> cx \<and> cx < w \<and> 0 \<le> cy \<and> cy < h \<longrightarrow>
        t ! nat (cy * w + cx) =
          (if cy = ny \<and> sx \<le> cx \<and> cx < j \<and> D cx cy then 1 else b0 ! nat (cy * w + cx))))"
  have "\<exists>s'. for_range sx (ex + 1) (stamp_cell w bwsq x y ny) b0 = Some s' \<and>
          Inv (if sx \<le> ex + 1 then ex + 1 else sx) s'"
  proof (rule for_range_rule)
    show "Inv sx b0" by (simp add: Inv_def)
  next
    fix j t assume j: "sx \<le> j" "j < ex + 1" and inv: "Inv j t"
    have jr: "0 \<le> j" "j < w" using j sx by linarith+
    note ci = cell_index[OF jr ny]
    have lt: "length t = length b0" using inv by (simp add: Inv_def)
    have inr: "0 \<le> ny * w + j \<and> ny * w + j < int (length t)" using ci len lt by simp
    show "\<exists>t'. stamp_cell w bwsq x y ny j t = Some t' \<and> Inv (j + 1) t'"
    proof (cases "D j ny")
      case False
      then have "stamp_cell w bwsq x y ny j t = Some t"
        by (simp add: stamp_cell_def D_def Let_def)
      moreover have "Inv (j + 1) t"
        unfolding Inv_def
      proof (intro conjI allI impI)
        show "length t = length b0" by (rule lt)
      next
        fix cx cy assume c: "0 \<le> cx \<and> cx < w \<and> 0 \<le> cy \<and> cy < h"
        have "(cy = ny \<and> sx \<le> cx \<and> cx < j + 1 \<and> D cx cy) = (cy = ny \<and> sx \<le> cx \<and> cx < j \<and> D cx cy)"
          using False by (cases "cx = j") auto
        then show "t ! nat (cy * w + cx) =
            (if cy = ny \<and> sx \<le> cx \<and> cx < j + 1 \<and> D cx cy then 1 else b0 ! nat (cy * w + cx))"
          using inv c unfolding Inv_def by simp
      qed
      ultimately show ?thesis by blast
    next
      case True
      then have "stamp_cell w bwsq x y ny j t = Some (t[nat (ny * w + j) := 1])"
        using inr by (simp add: stamp_cell_def D_def Let_def wr_def)
      moreover have "Inv (j + 1) (t[nat (ny * w + j) := 1])"
        unfolding Inv_def
      proof (intro conjI allI impI)
        show "length (t[nat (ny * w + j) := 1]) = length b0" using lt by simp
      next
        fix cx cy assume c: "0 \<le> cx \<and> cx < w \<and> 0 \<le> cy \<and> cy < h"
        then have cr: "0 \<le> cx" "cx < w" "0 \<le> cy" "cy < h" by simp_all
        have cl: "nat (cy * w + cx) < length t" using cell_index[OF cr] len lt by simp
        show "t[nat (ny * w + j) := 1] ! nat (cy * w + cx) =
            (if cy = ny \<and> sx \<le> cx \<and> cx < j + 1 \<and> D cx cy then 1 else b0 ! nat (cy * w + cx))"
        proof (cases "cx = j \<and> cy = ny")
          case same: True
          then show ?thesis using True j cl by simp
        next
          case diff: False
          have "nat (ny * w + j) \<noteq> nat (cy * w + cx)"
            using cell_index_inj[OF jr cr(1,2) ny(1) cr(3)] diff by blast
          then have "t[nat (ny * w + j) := 1] ! nat (cy * w + cx) = t ! nat (cy * w + cx)"
            by simp
          moreover have "(cy = ny \<and> sx \<le> cx \<and> cx < j + 1 \<and> D cx cy)
              = (cy = ny \<and> sx \<le> cx \<and> cx < j \<and> D cx cy)"
            using diff by auto
          ultimately show ?thesis using inv c unfolding Inv_def by simp
        qed
      qed
      ultimately show ?thesis by blast
    qed
  qed
  then obtain b1 where b1: "for_range sx (ex + 1) (stamp_cell w bwsq x y ny) b0 = Some b1"
    "Inv (ex + 1) b1" using sx(2) by auto
  have "(cx < ex + 1) = (cx \<le> ex)" for cx by linarith
  with b1 show ?thesis unfolding Inv_def D_def by auto
qed

lemma stamp_block:
  fixes w h x y sy ey sx ex bwsq :: int
  assumes w: "0 < w" and rows: "0 \<le> sy" "sy \<le> ey + 1" "ey < h"
    and cols: "0 \<le> sx" "sx \<le> ex + 1" "ex < w"
    and len: "length b0 = nat (h * w)"
  shows "\<exists>b1. for_range sy (ey + 1)
                 (\<lambda>ny. for_range sx (ex + 1) (stamp_cell w bwsq x y ny)) b0 = Some b1 \<and>
           length b1 = length b0 \<and>
           (\<forall>cx cy. 0 \<le> cx \<and> cx < w \<and> 0 \<le> cy \<and> cy < h \<longrightarrow>
              b1 ! nat (cy * w + cx) =
                (if sy \<le> cy \<and> cy \<le> ey \<and> sx \<le> cx \<and> cx \<le> ex \<and>
                    int_wrap (int_wrap ((cx - x) * (cx - x)) + int_wrap ((cy - y) * (cy - y))) \<le> bwsq
                 then 1 else b0 ! nat (cy * w + cx)))"
proof -
  define D where "D = (\<lambda>cx cy. sx \<le> cx \<and> cx \<le> ex \<and>
     int_wrap (int_wrap ((cx - x) * (cx - x)) + int_wrap ((cy - y) * (cy - y))) \<le> bwsq)"
  define Inv where "Inv = (\<lambda>i t. length t = length b0 \<and>
     (\<forall>cx cy. 0 \<le> cx \<and> cx < w \<and> 0 \<le> cy \<and> cy < h \<longrightarrow>
        t ! nat (cy * w + cx) =
          (if sy \<le> cy \<and> cy < i \<and> D cx cy then 1 else b0 ! nat (cy * w + cx))))"
  have "\<exists>s'. for_range sy (ey + 1)
                 (\<lambda>ny. for_range sx (ex + 1) (stamp_cell w bwsq x y ny)) b0 = Some s' \<and>
          Inv (if sy \<le> ey + 1 then ey + 1 else sy) s'"
  proof (rule for_range_rule)
    show "Inv sy b0" by (simp add: Inv_def)
  next
    fix i t assume i: "sy \<le> i" "i < ey + 1" and inv: "Inv i t"
    have ir: "0 \<le> i" "i < h" using i rows by linarith+
    have lt: "length t = nat (h * w)" using inv len by (simp add: Inv_def)
    from stamp_row[OF w ir cols lt, of bwsq x y]
    obtain t' where t': "for_range sx (ex + 1) (stamp_cell w bwsq x y i) t = Some t'"
      "length t' = length t"
      "\<And>cx cy. 0 \<le> cx \<and> cx < w \<and> 0 \<le> cy \<and> cy < h \<Longrightarrow>
         t' ! nat (cy * w + cx) = (if cy = i \<and> D cx cy then 1 else t ! nat (cy * w + cx))"
      unfolding D_def by (auto simp: conj_ac)
    have "Inv (i + 1) t'"
      unfolding Inv_def
    proof (intro conjI allI impI)
      show "length t' = length b0" using t'(2) lt len by simp
    next
      fix cx cy assume c: "0 \<le> cx \<and> cx < w \<and> 0 \<le> cy \<and> cy < h"
      have old: "t ! nat (cy * w + cx) =
          (if sy \<le> cy \<and> cy < i \<and> D cx cy then 1 else b0 ! nat (cy * w + cx))"
        using inv c unfolding Inv_def by blast
      show "t' ! nat (cy * w + cx) =
          (if sy \<le> cy \<and> cy < i + 1 \<and> D cx cy then 1 else b0 ! nat (cy * w + cx))"
      proof (cases "cy = i")
        case True
        then show ?thesis using t'(3)[OF c] old i by simp
      next
        case False
        then have "(cy < i + 1) = (cy < i)" by linarith
        then show ?thesis using t'(3)[OF c] old False by simp
      qed
    qed
    with t'(1) show "\<exists>t'. for_range sx (ex + 1) (stamp_cell w bwsq x y i) t = Some t' \<and> Inv (i + 1) t'"
      by blast
  qed
  then obtain b1 where b1: "for_range sy (ey + 1)
                 (\<lambda>ny. for_range sx (ex + 1) (stamp_cell w bwsq x y ny)) b0 = Some b1"
    "Inv (ey + 1) b1" using rows(2) by auto
  have "(cy < ey + 1) = (cy \<le> ey)" for cy by linarith
  with b1 show ?thesis unfolding Inv_def D_def by auto
qed

lemma int_wrap_id: "- 2147483648 \<le> v \<Longrightarrow> v < 2147483648 \<Longrightarrow> int_wrap v = v"
  by (simp add: int_wrap_def)

lemma square_bound:
  fixes d bw :: int
  assumes "\<bar>d\<bar> \<le> bw" "bw \<le> 32767"
  shows "0 \<le> d * d" "d * d \<le> 1073676289"
proof -
  show "0 \<le> d * d" by simp
  have "\<bar>d\<bar> * \<bar>d\<bar> \<le> 32767 * 32767" using assms by (intro mult_mono) simp_all
  then show "d * d \<le> 1073676289" by (simp add: abs_mult_self_eq)
qed

lemma distance_no_wrap:
  fixes dx dy bw :: int
  assumes "\<bar>dx\<bar> \<le> bw" "\<bar>dy\<bar> \<le> bw" "bw \<le> 32767"
  shows "int_wrap (int_wrap (dx * dx) + int_wrap (dy * dy)) = dx * dx + dy * dy"
    "int_wrap (bw * bw) = bw * bw"
proof -
  note sqx = square_bound[OF assms(1,3)] and sqy = square_bound[OF assms(2,3)]
  have wx: "int_wrap (dx * dx) = dx * dx"
    by (rule int_wrap_id) (use sqx in linarith)+
  have wy: "int_wrap (dy * dy) = dy * dy"
    by (rule int_wrap_id) (use sqy in linarith)+
  have "int_wrap (dx * dx + dy * dy) = dx * dx + dy * dy"
    by (rule int_wrap_id) (use sqx sqy in linarith)+
  then show "int_wrap (int_wrap (dx * dx) + int_wrap (dy * dy)) = dx * dx + dy * dy"
    by (simp only: wx wy)
  have "\<bar>bw\<bar> \<le> bw" using assms(1) by linarith
  note sqb = square_bound[OF this assms(3)]
  show "int_wrap (bw * bw) = bw * bw"
    by (rule int_wrap_id) (use sqb in linarith)+
qed

lemma clamped_window_abs:
  fixes c x bw n :: int
  assumes "0 \<le> bw" "0 \<le> x" "x < n"
    "clamp_int (x - bw) 0 (n - 1) \<le> c" "c \<le> clamp_int (x + bw) 0 (n - 1)"
  shows "\<bar>c - x\<bar> \<le> bw"
  using assms unfolding clamp_int_def by (auto split: if_splits)

lemma expand_cell_effect:
  fixes w h x y bw :: int
  assumes w: "0 < w" and h: "0 < h" and bw: "0 \<le> bw" and bwb: "bw \<le> 32767"
    and x: "0 \<le> x" "x < w"
    and y: "0 \<le> y" "y < h" and lm: "length mk = nat (h * w)" and len: "length b0 = nat (h * w)"
  shows "\<exists>b1. expand_cell mk w h bw (int_wrap (bw * bw)) y x b0 = Some b1 \<and>
           length b1 = length b0 \<and>
           (\<forall>cx cy. 0 \<le> cx \<and> cx < w \<and> 0 \<le> cy \<and> cy < h \<longrightarrow>
              b1 ! nat (cy * w + cx) =
                (if mk ! nat (y * w + x) > 0.5 \<and> within_disk bw x y cx cy
                 then 1 else b0 ! nat (cy * w + cx)))"
proof -
  note ci = cell_index[OF x y]
  have rdm: "rd mk (y * w + x) = Some (mk ! nat (y * w + x))" using ci lm by (simp add: rd_def)
  show ?thesis
  proof (cases "mk ! nat (y * w + x) > 0.5")
    case False
    then have "expand_cell mk w h bw (int_wrap (bw * bw)) y x b0 = Some b0"
      by (simp add: expand_cell_def rdm thresholds)
    with False show ?thesis by simp
  next
    case True
    define sy where "sy = clamp_int (y - bw) 0 (h - 1)"
    define ey where "ey = clamp_int (y + bw) 0 (h - 1)"
    define sx where "sx = clamp_int (x - bw) 0 (w - 1)"
    define ex where "ex = clamp_int (x + bw) 0 (w - 1)"
    have rows: "0 \<le> sy" "sy \<le> ey + 1" "ey < h"
      using bw h y unfolding sy_def ey_def clamp_int_def by auto
    have cols: "0 \<le> sx" "sx \<le> ex + 1" "ex < w"
      using bw w x unfolding sx_def ex_def clamp_int_def by auto
    have run: "expand_cell mk w h bw (int_wrap (bw * bw)) y x b0 =
        for_range sy (ey + 1)
          (\<lambda>ny. for_range sx (ex + 1) (stamp_cell w (int_wrap (bw * bw)) x y ny)) b0"
      using True by (simp add: expand_cell_def rdm thresholds Let_def sy_def ey_def sx_def ex_def)
    from stamp_block[OF w rows cols len, of "int_wrap (bw * bw)" x y]
    obtain b1 where b1: "for_range sy (ey + 1)
           (\<lambda>ny. for_range sx (ex + 1) (stamp_cell w (int_wrap (bw * bw)) x y ny)) b0 = Some b1"
      "length b1 = length b0"
      "\<And>cx cy. 0 \<le> cx \<and> cx < w \<and> 0 \<le> cy \<and> cy < h \<Longrightarrow>
          b1 ! nat (cy * w + cx) =
            (if sy \<le> cy \<and> cy \<le> ey \<and> sx \<le> cx \<and> cx \<le> ex \<and>
                int_wrap (int_wrap ((cx - x) * (cx - x)) + int_wrap ((cy - y) * (cy - y)))
                  \<le> int_wrap (bw * bw)
             then 1 else b0 ! nat (cy * w + cx))"
      by blast
    have "b1 ! nat (cy * w + cx) =
        (if mk ! nat (y * w + x) > 0.5 \<and> within_disk bw x y cx cy
         then 1 else b0 ! nat (cy * w + cx))"
      if c: "0 \<le> cx \<and> cx < w \<and> 0 \<le> cy \<and> cy < h" for cx cy
    proof -
      have "(sy \<le> cy \<and> cy \<le> ey \<and> sx \<le> cx \<and> cx \<le> ex \<and>
                int_wrap (int_wrap ((cx - x) * (cx - x)) + int_wrap ((cy - y) * (cy - y)))
                  \<le> int_wrap (bw * bw))
          = within_disk bw x y cx cy"
      proof (cases "sy \<le> cy \<and> cy \<le> ey \<and> sx \<le> cx \<and> cx \<le> ex")
        case inside: True
        have "\<bar>cx - x\<bar> \<le> bw"
          using inside clamped_window_abs[OF bw x, of cx] unfolding sx_def ex_def by simp
        moreover have "\<bar>cy - y\<bar> \<le> bw"
          using inside clamped_window_abs[OF bw y, of cy] unfolding sy_def ey_def by simp
        ultimately show ?thesis
          using inside distance_no_wrap[of "cx - x" bw "cy - y"] bwb
          by (simp add: within_disk_def)
      next
        case outside: False
        have "\<not> within_disk bw x y cx cy"
        proof
          assume d: "within_disk bw x y cx cy"
          from within_disk_clamped[OF bw d, of w h] c
          have "sx \<le> cx" "cx \<le> ex" "sy \<le> cy" "cy \<le> ey"
            unfolding sx_def ex_def sy_def ey_def by simp_all
          with outside show False by simp
        qed
        with outside show ?thesis by blast
      qed
      with b1(3)[OF c] True show ?thesis by simp
    qed
    with run b1(1,2) show ?thesis by simp
  qed
qed

lemma expand_native_result:
  assumes w: "0 < width" and h: "0 < height" and bw: "0 \<le> bw" and bwb: "bw \<le> 32767"
    and lm: "length mk = nat (width * height)" and lo: "length out = nat (width * height)"
  shows "\<exists>out'. expand_mask_native (Some mk) (Some out) width height bw
            = Some (MASK_PROCESSOR_SUCCESS, Some out') \<and>
          length out' = nat (width * height) \<and>
          (\<forall>cx cy. 0 \<le> cx \<and> cx < width \<and> 0 \<le> cy \<and> cy < height \<longrightarrow>
             cell_at out' width cx cy =
               (if \<exists>fx fy. 0 \<le> fx \<and> fx < width \<and> 0 \<le> fy \<and> fy < height \<and>
                           cell_at mk width fx fy > 0.5 \<and> within_disk bw fx fy cx cy
                then 1 else 0))"
proof -
  define n where "n = nat (width * height)"
  have hw: "height * width = width * height" by simp
  define hit where "hit = (\<lambda>m cx cy. \<exists>fx fy. 0 \<le> fx \<and> fx < width \<and> 0 \<le> fy \<and> fy < height \<and>
      fy * width + fx < m \<and> mk ! nat (fy * width + fx) > 0.5 \<and> within_disk bw fx fy cx cy)"
  define Inv where "Inv = (\<lambda>m t. length t = n \<and>
     (\<forall>cx cy. 0 \<le> cx \<and> cx < width \<and> 0 \<le> cy \<and> cy < height \<longrightarrow>
        t ! nat (cy * width + cx) = (if hit m cx cy then 1 else (0::real))))"
  have zero: "memset_zero out (width * height) = Some (replicate n 0)"
    using lo by (simp add: memset_zero_def n_def)
  have "\<exists>s'. for_range 0 height
          (\<lambda>y. for_range 0 width (expand_cell mk width height bw (int_wrap (bw * bw)) y))
            (replicate n 0)
            = Some s' \<and> Inv (height * width) s'"
  proof (rule grid_loop_rule)
    show "0 \<le> width" "0 \<le> height" using w h by simp_all
    show "Inv 0 (replicate n 0)"
      unfolding Inv_def
    proof (intro conjI allI impI)
      show "length (replicate n (0::real)) = n" by simp
    next
      fix cx cy assume c: "0 \<le> cx \<and> cx < width \<and> 0 \<le> cy \<and> cy < height"
      then have "nat (cy * width + cx) < n"
        using cell_index[of cx width cy height] by (simp add: n_def hw)
      moreover have "\<not> hit 0 cx cy"
        unfolding hit_def using cell_index(1) by (metis not_less)
      ultimately show "replicate n 0 ! nat (cy * width + cx) = (if hit 0 cx cy then 1 else (0::real))"
        by simp
    qed
  next
    fix y x t assume yx: "0 \<le> y" "y < height" "0 \<le> x" "x < width"
      and inv: "Inv (y * width + x) t"
    have lt: "length t = nat (height * width)" using inv by (simp add: Inv_def n_def hw)
    have lm': "length mk = nat (height * width)" using lm by (simp add: hw)
    from expand_cell_effect[OF w h bw bwb yx(3,4,1,2) lm' lt]
    obtain t' where t': "expand_cell mk width height bw (int_wrap (bw * bw)) y x t = Some t'"
      "length t' = length t"
      "\<And>cx cy. 0 \<le> cx \<and> cx < width \<and> 0 \<le> cy \<and> cy < height \<Longrightarrow>
         t' ! nat (cy * width + cx) =
           (if mk ! nat (y * width + x) > 0.5 \<and> within_disk bw x y cx cy
            then 1 else t ! nat (cy * width + cx))"
      by blast
    have "Inv (y * width + x + 1) t'"
      unfolding Inv_def
    proof (intro conjI allI impI)
      show "length t' = n" using t'(2) lt by (simp add: n_def hw)
    next
      fix cx cy assume c: "0 \<le> cx \<and> cx < width \<and> 0 \<le> cy \<and> cy < height"
      have old: "t ! nat (cy * width + cx) = (if hit (y * width + x) cx cy then 1 else 0)"
        using inv c unfolding Inv_def by blast
      have split: "hit (y * width + x + 1) cx cy =
          (hit (y * width + x) cx cy \<or>
           (mk ! nat (y * width + x) > 0.5 \<and> within_disk bw x y cx cy))"
      proof
        assume "hit (y * width + x + 1) cx cy"
        then obtain fx fy where f: "0 \<le> fx" "fx < width" "0 \<le> fy" "fy < height"
          "fy * width + fx < y * width + x + 1" "mk ! nat (fy * width + fx) > 0.5"
          "within_disk bw fx fy cx cy" unfolding hit_def by blast
        show "hit (y * width + x) cx cy \<or>
           (mk ! nat (y * width + x) > 0.5 \<and> within_disk bw x y cx cy)"
        proof (cases "fy * width + fx = y * width + x")
          case True
          have "(fy * width + fx) div width = fy" "(fy * width + fx) mod width = fx"
            using cell_index[OF f(1-4)] by simp_all
          moreover have "(y * width + x) div width = y" "(y * width + x) mod width = x"
            using cell_index[OF yx(3,4,1,2)] by simp_all
          ultimately have "fx = x" "fy = y" using True by simp_all
          with f show ?thesis by simp
        next
          case False
          then have "fy * width + fx < y * width + x" using f(5) by linarith
          with f show ?thesis unfolding hit_def by blast
        qed
      next
        assume "hit (y * width + x) cx cy \<or>
           (mk ! nat (y * width + x) > 0.5 \<and> within_disk bw x y cx cy)"
        then show "hit (y * width + x + 1) cx cy"
        proof
          assume "hit (y * width + x) cx cy"
          then obtain fx fy where f: "0 \<le> fx" "fx < width" "0 \<le> fy" "fy < height"
            "fy * width + fx < y * width + x" "mk ! nat (fy * width + fx) > 0.5"
            "within_disk bw fx fy cx cy" unfolding hit_def by blast
          from f(5) have "fy * width + fx < y * width + x + 1" by linarith
          with f show ?thesis unfolding hit_def by blast
        next
          assume "mk ! nat (y * width + x) > 0.5 \<and> within_disk bw x y cx cy"
          moreover have "y * width + x < y * width + x + 1" by simp
          ultimately show ?thesis unfolding hit_def using yx by blast
        qed
      qed
      show "t' ! nat (cy * width + cx) = (if hit (y * width + x + 1) cx cy then 1 else 0)"
        using t'(3)[OF c] old split by simp
    qed
    with t'(1) show "\<exists>t'. expand_cell mk width height bw (int_wrap (bw * bw)) y x t = Some t' \<and>
        Inv (y * width + x + 1) t'" by blast
  qed
  then obtain out' where out': "for_range 0 height
          (\<lambda>y. for_range 0 width (expand_cell mk width height bw (int_wrap (bw * bw)) y))
            (replicate n 0)
            = Some out'" "Inv (height * width) out'" by blast
  have run: "expand_mask_native (Some mk) (Some out) width height bw
            = Some (MASK_PROCESSOR_SUCCESS, Some out')"
    using w h bw zero out'(1) by (simp add: expand_mask_native_def Let_def)
  have "hit (height * width) cx cy =
      (\<exists>fx fy. 0 \<le> fx \<and> fx < width \<and> 0 \<le> fy \<and> fy < height \<and>
                           cell_at mk width fx fy > 0.5 \<and> within_disk bw fx fy cx cy)" for cx cy
    unfolding hit_def cell_at_def using cell_index(2) by blast
  with out'(2) run show ?thesis unfolding Inv_def n_def cell_at_def by simp
qed


lemma memset_zero_full:
  "length out = nat n \<Longrightarrow> 0 \<le> n \<Longrightarrow> memset_zero out n = Some (replicate (nat n) 0)"
  by (simp add: memset_zero_def)

lemma memcpy_doubles_full:
  "length dst = nat n \<Longrightarrow> length src = nat n \<Longrightarrow> 0 \<le> n \<Longrightarrow> memcpy_doubles dst src n = Some src"
  by (simp add: memcpy_doubles_def)

lemma expand_native_output_irrelevant:
  assumes "0 < width" "0 < height" "0 \<le> bw" "length out = nat (width * height)"
    "length out2 = nat (width * height)"
  shows "expand_mask_native (Some mk) (Some out) width height bw
       = expand_mask_native (Some mk) (Some out2) width height bw"
  using assms by (simp add: expand_mask_native_def memset_zero_full)

lemma expand_ios_output_irrelevant:
  assumes "0 < width" "0 < height" "0 < bw" "length out = nat (width * height)"
    "length out2 = nat (width * height)"
  shows "expand_mask_native_ios (Some mk) (Some out) width height bw scratch
       = expand_mask_native_ios (Some mk) (Some out2) width height bw scratch"
  using assms by (simp add: expand_mask_native_ios_def memset_zero_full)

lemma plus_native_zero:
  "expand_mask_native (Some [0, 0, 0, 0, 1, 0, 0, 0, 0]) (Some [0, 0, 0, 0, 0, 0, 0, 0, 0]) 3 3 1
     = Some (MASK_PROCESSOR_SUCCESS, Some [0, 1, 0, 1, 1, 1, 0, 1, 0])"
  by code_simp

lemma plus_ios_zero:
  "expand_mask_native_ios (Some [0, 0, 0, 0, 1, 0, 0, 0, 0]) (Some [0, 0, 0, 0, 0, 0, 0, 0, 0]) 3 3 1
     None = Some (MASK_PROCESSOR_SUCCESS, Some [0, 1, 0, 1, 1, 1, 0, 1, 0])"
  by code_simp

lemma expand_ios_small_scratch_irrelevant:
  "border_width \<le> 3 \<Longrightarrow>
   expand_mask_native_ios msk output width height border_width scratch
     = expand_mask_native_ios msk output width height border_width None"
  by (simp add: expand_mask_native_ios_def split: option.splits)

text \<open>
  The iOS variant with \<open>border_width = 4\<close> grows by rounds of 8-connected dilation: on a
  5 by 2 grid whose only foreground cell is \<open>(0, 0)\<close> it marks cell \<open>(4, 1)\<close>, at squared
  distance 17 from it.
\<close>

theorem expand_ios_chebyshev_counterexample:
  "expand_mask_native_ios (Some [1, 0, 0, 0, 0, 0, 0, 0, 0, 0]) (Some [0, 0, 0, 0, 0, 0, 0, 0, 0, 0])
     5 2 4 (Some [0, 0, 0, 0, 0, 0, 0, 0, 0, 0])
     = Some (MASK_PROCESSOR_SUCCESS, Some [1, 1, 1, 1, 1, 1, 1, 1, 1, 1]) \<and>
   \<not> within_disk 4 0 0 4 1"
  by code_simp

text \<open>
  The small-radius branch of the iOS variant adds the linearised offsets
  \<open>dy * width + dx\<close> to the centre index, so an offset can leave a row at one end and
  enter the neighbouring row at the other: on a 2 by 2 grid whose only foreground cell is
  \<open>(0, 1)\<close>, \<open>border_width = 1\<close> marks cell \<open>(1, 0)\<close>, at squared distance 2, which the
  variant \<^verbatim>\<open>src/native/mask_processor.c\<close> leaves at 0.
\<close>

lemma expand_ios_row_wrap:
  "expand_mask_native_ios (Some [0, 0, 1, 0]) (Some [0, 0, 0, 0]) 2 2 1 None
     = Some (MASK_PROCESSOR_SUCCESS, Some [1, 1, 1, 1]) \<and>
   expand_mask_native (Some [0, 0, 1, 0]) (Some [0, 0, 0, 0]) 2 2 1
     = Some (MASK_PROCESSOR_SUCCESS, Some [1, 0, 1, 1]) \<and>
   \<not> within_disk 1 0 1 1 0"
  by code_simp

text \<open>
  Claim C8.  On one-row and one-column grids the iOS expander with \<open>border_width > 3\<close>
  reads outside its scratch buffer: for a 3 by 1 grid of zeros the top-row test reads
  \<^verbatim>\<open>temp_buffer[width + x]\<close>, index 3 of 3 cells; for a 1 by 3 grid of zeros the left-column
  test reads \<^verbatim>\<open>temp_buffer[left_idx + width + 1]\<close>, again index 3 of 3 cells.
\<close>

theorem expand_ios_degenerate_out_of_bounds:
  "positive [0, 0, 0] (3 + 0) = None \<and>
   dilate_rows [0, 0, 0] 3 1 0 [0, 0, 0] = None \<and>
   expand_mask_native_ios (Some [0, 0, 0]) (Some [0, 0, 0]) 3 1 4 (Some [0, 0, 0]) = None \<and>
   positive [0, 0, 0] (1 * 1 + 1 + 1) = None \<and>
   dilate_columns [0, 0, 0] 1 1 [0, 0, 0] = None \<and>
   expand_mask_native_ios (Some [0, 0, 0]) (Some [0, 0, 0]) 1 3 4 (Some [0, 0, 0]) = None"
  by code_simp

text \<open>The iOS variant with \<open>border_width = 0\<close> copies the mask value 0.7 instead of writing 1.0.\<close>

theorem expand_ios_raw_copy_counterexample:
  "expand_mask_native_ios (Some [0.7]) (Some [0]) 1 1 0 None
     = Some (MASK_PROCESSOR_SUCCESS, Some [0.7]) \<and> (0.7 :: real) > 0.5 \<and> (0.7 :: real) \<noteq> 1.0"
  by code_simp

text \<open>
  The iOS expander, when the allocation fails, has already replaced the output cell 0.25
  by 1.0.
\<close>

theorem expand_ios_alloc_failure_counterexample:
  "expand_mask_native_ios (Some [0.7]) (Some [0.25]) 1 1 4 None
     = Some (MASK_PROCESSOR_ERROR_MEMORY, Some [1]) \<and> [1] \<noteq> [0.25 :: real]"
  by code_simp

lemma within_disk_zero: "within_disk 0 fx fy cx cy \<longleftrightarrow> fx = cx \<and> fy = cy"
proof -
  have "(cx - fx) * (cx - fx) + (cy - fy) * (cy - fy) \<le> 0 \<longleftrightarrow> cx - fx = 0 \<and> cy - fy = 0"
    using sum_squares_le_zero_iff[of "cx - fx" "cy - fy"] by simp
  then show ?thesis by (auto simp: within_disk_def)
qed

lemma expand_native_zero_width:
  assumes w: "0 < width" and h: "0 < height"
    and lm: "length mk = nat (width * height)" and lo: "length out = nat (width * height)"
  shows "expand_mask_native (Some mk) (Some out) width height 0
     = Some (MASK_PROCESSOR_SUCCESS, Some (map (\<lambda>v. if v > 0.5 then 1 else 0) mk))"
proof -
  from expand_native_result[OF w h _ _ lm lo, of 0]
  obtain out' where run: "expand_mask_native (Some mk) (Some out) width height 0
            = Some (MASK_PROCESSOR_SUCCESS, Some out')"
    and len: "length out' = nat (width * height)"
    and cells: "\<And>cx cy. 0 \<le> cx \<and> cx < width \<and> 0 \<le> cy \<and> cy < height \<Longrightarrow>
             cell_at out' width cx cy =
               (if \<exists>fx fy. 0 \<le> fx \<and> fx < width \<and> 0 \<le> fy \<and> fy < height \<and>
                           cell_at mk width fx fy > 0.5 \<and> within_disk 0 fx fy cx cy
                then 1 else 0)"
    by auto
  have "out' = map (\<lambda>v. if v > 0.5 then 1 else 0) mk"
  proof (rule nth_equalityI)
    show "length out' = length (map (\<lambda>v. if v > 0.5 then 1 else (0::real)) mk)"
      using len lm by simp
  next
    fix i assume i: "i < length out'"
    define cx where "cx = int i mod width"
    define cy where "cy = int i div width"
    have idx: "cy * width + cx = int i" by (simp add: cx_def cy_def)
    have cxr: "0 \<le> cx" "cx < width" using w by (simp_all add: cx_def)
    have "int i < width * height" using i len by linarith
    then have "int i < height * width" by (simp add: mult.commute)
    then have lt: "cy * width + cx < height * width" using idx by simp
    have cy0: "0 \<le> cy" using w by (simp add: cy_def pos_imp_zdiv_nonneg_iff)
    have "cy < height"
    proof (rule ccontr)
      assume "\<not> cy < height"
      then have "height * width \<le> cy * width" using w by (intro mult_right_mono) simp_all
      with lt cxr show False by linarith
    qed
    with cy0 have cyr: "0 \<le> cy" "cy < height" by simp_all
    have ex: "(\<exists>fx fy. 0 \<le> fx \<and> fx < width \<and> 0 \<le> fy \<and> fy < height \<and>
                 cell_at mk width fx fy > 0.5 \<and> within_disk 0 fx fy cx cy)
        = (cell_at mk width cx cy > 0.5)"
      using cxr cyr by (auto simp: within_disk_zero)
    have "cell_at out' width cx cy = (if cell_at mk width cx cy > 0.5 then 1 else 0)"
      using cells[of cx cy] cxr cyr unfolding ex by simp
    then have "out' ! i = (if mk ! i > 0.5 then 1 else 0)"
      by (simp add: cell_at_def idx)
    then show "out' ! i = map (\<lambda>v. if v > 0.5 then 1 else 0) mk ! i"
      using i len lm by simp
  qed
  with run show ?thesis by simp
qed

lemma mark_foreground_loop:
  assumes "length mk = n"
  shows "for_range 0 (int n) (mark_foreground mk) (replicate n 0)
     = Some (map (\<lambda>v. if v > 0.5 then 1 else 0) mk)"
proof -
  define Inv where "Inv = (\<lambda>i (t :: real list). length t = n \<and>
     (\<forall>k<n. t ! k = (if int k < i \<and> mk ! k > 0.5 then 1 else 0)))"
  have "\<exists>s'. for_range 0 (int n) (mark_foreground mk) (replicate n 0) = Some s' \<and>
          Inv (if 0 \<le> int n then int n else 0) s'"
  proof (rule for_range_rule)
    show "Inv 0 (replicate n 0)" by (simp add: Inv_def)
  next
    fix i t assume i: "0 \<le> i" "i < int n" and inv: "Inv i t"
    have lt: "length t = n" using inv by (simp add: Inv_def)
    have rdm: "rd mk i = Some (mk ! nat i)" using i assms by (simp add: rd_def)
    show "\<exists>t'. mark_foreground mk i t = Some t' \<and> Inv (i + 1) t'"
    proof (cases "mk ! nat i > 0.5")
      case True
      then have "mark_foreground mk i t = Some (t[nat i := 1])"
        using i lt by (simp add: mark_foreground_def rdm thresholds wr_def)
      moreover have "Inv (i + 1) (t[nat i := 1])"
        unfolding Inv_def
      proof (intro conjI allI impI)
        show "length (t[nat i := 1]) = n" using lt by simp
      next
        fix k assume k: "k < n"
        show "t[nat i := 1] ! k = (if int k < i + 1 \<and> mk ! k > 0.5 then 1 else 0)"
        proof (cases "k = nat i")
          case same: True
          then show ?thesis using True k lt i by simp
        next
          case diff: False
          then have "(int k < i + 1) = (int k < i)" using i by linarith
          then show ?thesis using diff inv k unfolding Inv_def by simp
        qed
      qed
      ultimately show ?thesis by blast
    next
      case False
      then have "mark_foreground mk i t = Some t"
        by (simp add: mark_foreground_def rdm thresholds)
      moreover have "Inv (i + 1) t"
        unfolding Inv_def
      proof (intro conjI allI impI)
        show "length t = n" by (rule lt)
      next
        fix k assume k: "k < n"
        have "(int k < i + 1 \<and> mk ! k > 0.5) = (int k < i \<and> mk ! k > 0.5)"
        proof (cases "k = nat i")
          case True
          then show ?thesis using False i by simp
        next
          case diff: False
          then have "(int k < i + 1) = (int k < i)" using i by linarith
          then show ?thesis by simp
        qed
        then show "t ! k = (if int k < i + 1 \<and> mk ! k > 0.5 then 1 else 0)"
          using inv k unfolding Inv_def by simp
      qed
      ultimately show ?thesis by blast
    qed
  qed
  then obtain s' where s': "for_range 0 (int n) (mark_foreground mk) (replicate n 0) = Some s'"
    "Inv (int n) s'" by auto
  have "s' = map (\<lambda>v. if v > 0.5 then 1 else 0) mk"
    using s'(2) assms unfolding Inv_def by (intro nth_equalityI) simp_all
  with s'(1) show ?thesis by simp
qed

text \<open>
  The squares overflow a 32-bit \<^verbatim>\<open>int\<close> when \<open>border_width\<close> is large:
  \<open>46341 * 46341\<close> wraps to a negative \<^verbatim>\<open>border_width_sq\<close>, and the one foreground
  cell of a 1 by 1 grid is then not marked.
\<close>

lemma expand_native_square_overflow:
  "int_wrap (46341 * 46341) = - 2147479015 \<and>
   expand_mask_native (Some [1]) (Some [0]) 1 1 46341 = Some (MASK_PROCESSOR_SUCCESS, Some [0])"
  by code_simp

text \<open>
  Claim C1, as amended.  In the variant \<^verbatim>\<open>src/native/mask_processor.c\<close>, for every grid and
  every \<open>border_width\<close> from 0 to 32767 (so that the sum of two squares up to
  \<open>border_width\<^sup>2\<close> fits a 32-bit \<^verbatim>\<open>int\<close>), the expander returns success and sets a cell to
  1.0 exactly when some foreground cell (mask above 0.5) lies within Euclidean distance
  \<open>border_width\<close> of it, and to 0.0 otherwise.  In both variants the 3 by 3 grid with
  only its centre set, \<open>border_width = 1\<close>, gives the plus shape.
\<close>

theorem expand_native_is_disk_dilation:
  assumes "0 < width" "0 < height" "0 \<le> border_width" "border_width \<le> 32767"
    and "length mk = nat (width * height)" "length out = nat (width * height)"
    and "length out3 = 9"
  shows "(\<exists>out'. expand_mask_native (Some mk) (Some out) width height border_width
            = Some (MASK_PROCESSOR_SUCCESS, Some out') \<and>
          length out' = nat (width * height) \<and>
          (\<forall>cx cy. 0 \<le> cx \<and> cx < width \<and> 0 \<le> cy \<and> cy < height \<longrightarrow>
             cell_at out' width cx cy =
               (if \<exists>fx fy. 0 \<le> fx \<and> fx < width \<and> 0 \<le> fy \<and> fy < height \<and>
                           cell_at mk width fx fy > 0.5 \<and>
                           within_disk border_width fx fy cx cy
                then 1 else 0))) \<and>
         expand_mask_native (Some [0, 0, 0, 0, 1, 0, 0, 0, 0]) (Some out3) 3 3 1
           = Some (MASK_PROCESSOR_SUCCESS, Some [0, 1, 0, 1, 1, 1, 0, 1, 0]) \<and>
         expand_mask_native_ios (Some [0, 0, 0, 0, 1, 0, 0, 0, 0]) (Some out3) 3 3 1 scratch
           = Some (MASK_PROCESSOR_SUCCESS, Some [0, 1, 0, 1, 1, 1, 0, 1, 0])"
proof -
  have "expand_mask_native (Some [0, 0, 0, 0, 1, 0, 0, 0, 0]) (Some out3) 3 3 1
      = expand_mask_native (Some [0, 0, 0, 0, 1, 0, 0, 0, 0]) (Some [0, 0, 0, 0, 0, 0, 0, 0, 0]) 3 3 1"
    using assms(7) by (intro expand_native_output_irrelevant) simp_all
  moreover have "expand_mask_native_ios (Some [0, 0, 0, 0, 1, 0, 0, 0, 0]) (Some out3) 3 3 1 scratch
      = expand_mask_native_ios (Some [0, 0, 0, 0, 1, 0, 0, 0, 0]) (Some [0, 0, 0, 0, 0, 0, 0, 0, 0])
          3 3 1 scratch"
    using assms(7) by (intro expand_ios_output_irrelevant) simp_all
  moreover have "expand_mask_native_ios (Some [0, 0, 0, 0, 1, 0, 0, 0, 0])
        (Some [0, 0, 0, 0, 0, 0, 0, 0, 0]) 3 3 1 scratch
      = expand_mask_native_ios (Some [0, 0, 0, 0, 1, 0, 0, 0, 0])
        (Some [0, 0, 0, 0, 0, 0, 0, 0, 0]) 3 3 1 None"
    by (intro expand_ios_small_scratch_irrelevant) simp
  ultimately show ?thesis
    using expand_native_result[OF assms(1-6)] plus_native_zero plus_ios_zero by simp
qed

theorem expand_native_is_disk_dilation_witness:
  "(0::int) < 3 \<and> (0::int) \<le> 1 \<and> (1::int) \<le> 32767 \<and>
   length [0, 0, 0, 0, 1, 0, 0, 0, 0 :: real] = nat (3 * 3) \<and>
   length [5, 5, 5, 5, 5, 5, 5, 5, 5 :: real] = 9 \<and>
   (\<exists>out'. expand_mask_native (Some [0, 0, 0, 0, 1, 0, 0, 0, 0])
              (Some [5, 5, 5, 5, 5, 5, 5, 5, 5]) 3 3 1 = Some (MASK_PROCESSOR_SUCCESS, Some out') \<and>
            cell_at out' 3 1 0 = 1) \<and>
   expand_mask_native (Some [0, 0, 0, 0, 1, 0, 0, 0, 0]) (Some [5, 5, 5, 5, 5, 5, 5, 5, 5]) 3 3 1
     = Some (MASK_PROCESSOR_SUCCESS, Some [0, 1, 0, 1, 1, 1, 0, 1, 0]) \<and>
   expand_mask_native_ios (Some [0, 0, 0, 0, 1, 0, 0, 0, 0]) (Some [5, 5, 5, 5, 5, 5, 5, 5, 5])
     3 3 1 None = Some (MASK_PROCESSOR_SUCCESS, Some [0, 1, 0, 1, 1, 1, 0, 1, 0])"
proof -
  have fg: "\<exists>fx fy. 0 \<le> fx \<and> fx < 3 \<and> 0 \<le> fy \<and> fy < 3 \<and>
      cell_at [0, 0, 0, 0, 1, 0, 0, 0, 0 :: real] 3 fx fy > 0.5 \<and> within_disk 1 fx fy 1 0"
    by (intro exI[of _ 1]) (simp add: cell_at_def within_disk_def)
  from expand_native_is_disk_dilation [of 3 3 1 "[0, 0, 0, 0, 1, 0, 0, 0, 0]"
      "[5, 5, 5, 5, 5, 5, 5, 5, 5]" "[5, 5, 5, 5, 5, 5, 5, 5, 5]" None]
  show ?thesis
    apply simp
    apply (elim exE conjE)
    subgoal for out'
      apply (drule spec[of _ 1])
      apply (drule spec[of _ 0])
      using fg apply simp
      done
    done
qed

text \<open>
  Claim C6, as amended.  With \<open>border_width = 0\<close> both variants return success; the variant
  \<^verbatim>\<open>src/native/mask_processor.c\<close> writes the thresholded mask (1.0 where the mask exceeds 0.5,
  0.0 elsewhere), the iOS variant writes a copy of the mask as it is.
\<close>

theorem expand_zero_border_width:
  assumes "0 < width" "0 < height"
    and "length mk = nat (width * height)" "length out = nat (width * height)"
  shows "expand_mask_native (Some mk) (Some out) width height 0
           = Some (MASK_PROCESSOR_SUCCESS, Some (map (\<lambda>v. if v > 0.5 then 1 else 0) mk)) \<and>
         expand_mask_native_ios (Some mk) (Some out) width height 0 scratch
           = Some (MASK_PROCESSOR_SUCCESS, Some mk)"
proof -
  have "expand_mask_native_ios (Some mk) (Some out) width height 0 scratch
           = Some (MASK_PROCESSOR_SUCCESS, Some mk)"
    using assms by (simp add: expand_mask_native_ios_def memcpy_doubles_full)
  with expand_native_zero_width[OF assms] show ?thesis by simp
qed

theorem expand_zero_border_width_witness:
  "(0::int) < 2 \<and> (0::int) < 1 \<and> length [0.7, 0.2 :: real] = nat (2 * 1) \<and>
   length [9, 9 :: real] = nat (2 * 1) \<and>
   expand_mask_native (Some [0.7, 0.2]) (Some [9, 9]) 2 1 0
     = Some (MASK_PROCESSOR_SUCCESS, Some [1, 0]) \<and>
   expand_mask_native_ios (Some [0.7, 0.2]) (Some [9, 9]) 2 1 0 None
     = Some (MASK_PROCESSOR_SUCCESS, Some [0.7, 0.2])"
  using expand_zero_border_width [of 2 1 "[0.7, 0.2]" "[9, 9]" None]
  by simp

text \<open>
  Claim C9, as amended.  When the scratch allocation fails, the smoother returns
  \<^verbatim>\<open>MASK_PROCESSOR_ERROR_MEMORY\<close> with the output buffer as it was.  The iOS expander
  (the only expander that allocates, for \<open>border_width > 3\<close>) returns
  \<^verbatim>\<open>MASK_PROCESSOR_ERROR_MEMORY\<close> too, but has by then overwritten the output with the
  thresholded mask: it zero-fills and marks the foreground cells before allocating.
\<close>

theorem scratch_allocation_failure:
  assumes "0 < width" "0 < height" "1 < kernel_size" "3 < border_width"
    and "length mk = nat (width * height)" "length out = nat (width * height)"
  shows "smooth_mask_native (Some mk) (Some out) width height kernel_size None
           = Some (MASK_PROCESSOR_ERROR_MEMORY, Some out) \<and>
         expand_mask_native_ios (Some mk) (Some out) width height border_width None
           = Some (MASK_PROCESSOR_ERROR_MEMORY, Some (map (\<lambda>v. if v > 0.5 then 1 else 0) mk))"
proof -
  have s: "smooth_mask_native (Some mk) (Some out) width height kernel_size None
           = Some (MASK_PROCESSOR_ERROR_MEMORY, Some out)"
    using assms(1-3) by (simp add: smooth_mask_native_def)
  have pos: "0 \<le> width * height" using assms(1,2) by simp
  have z: "memset_zero out (width * height) = Some (replicate (nat (width * height)) 0)"
    using assms(6) pos by (simp add: memset_zero_full)
  have m: "for_range 0 (width * height) (mark_foreground mk) (replicate (nat (width * height)) 0)
      = Some (map (\<lambda>v. if v > 0.5 then 1 else 0) mk)"
    using mark_foreground_loop[OF assms(5)] pos by simp
  have "expand_mask_native_ios (Some mk) (Some out) width height border_width None
           = Some (MASK_PROCESSOR_ERROR_MEMORY, Some (map (\<lambda>v. if v > 0.5 then 1 else 0) mk))"
    using assms(1,2,4) by (simp add: expand_mask_native_ios_def z m)
  with s show ?thesis by simp
qed

theorem scratch_allocation_failure_witness:
  "(0::int) < 1 \<and> (1::int) < 3 \<and> (3::int) < 4 \<and> length [0.7 :: real] = nat (1 * 1) \<and>
   length [0.25 :: real] = nat (1 * 1) \<and>
   smooth_mask_native (Some [0.7]) (Some [0.25]) 1 1 3 None
     = Some (MASK_PROCESSOR_ERROR_MEMORY, Some [0.25]) \<and>
   expand_mask_native_ios (Some [0.7]) (Some [0.25]) 1 1 4 None
     = Some (MASK_PROCESSOR_ERROR_MEMORY, Some [1])"
  using scratch_allocation_failure [of 1 1 3 4 "[0.7]" "[0.25]"]
  by simp

end
